theory Spec2Isabelle
  imports Main "HOL-Library.Word"
begin

unbundle bit_operations_syntax

section \<open>Machine types, constants and the global heap variables\<close>

text \<open>
  The allocator of \<^verbatim>\<open>simplified_smm.c\<close> works on raw memory of a 64-bit machine:
  pointers and \<^verbatim>\<open>size_t\<close> are 64-bit words, \<^verbatim>\<open>int\<close> is a 32-bit word read as
  two's complement, \<^verbatim>\<open>char\<close> is a byte. Memory is a flat array of bytes. Pointer
  arithmetic on \<^verbatim>\<open>void *\<close> counts bytes and wraps around like the machine's addition.
\<close>

type_synonym addr = "64 word"
type_synonym size_t = "64 word"
type_synonym c_int = "32 word"
type_synonym c_char = "8 word"
type_synonym memory = "addr \<Rightarrow> 8 word"

definition HEAP_SIZE :: c_int where
  "HEAP_SIZE = 8000"

definition NULL :: addr where
  "NULL = 0"

text \<open>\<^verbatim>\<open>MAP_FAILED\<close> is \<^verbatim>\<open>(void *) -1\<close>.\<close>

definition MAP_FAILED :: addr where
  "MAP_FAILED = - 1"

text \<open>
  No object lies at \<^verbatim>\<open>(void *) -1\<close>: the address is the last byte of the address space
  and is never mapped, which is why \<^verbatim>\<open>mmap\<close> and \<^verbatim>\<open>mm_sbrk\<close> can use it as their
  failure value. A store through it is a memory fault: the process is killed by
  \<^verbatim>\<open>SIGSEGV\<close> and the function that made the store does not return. This is the one
  fault of the model; every other access reads or writes the flat memory.
\<close>

datatype fault = SIGSEGV

text \<open>The characters \<^verbatim>\<open>'f'\<close> and \<^verbatim>\<open>'o'\<close>.\<close>

definition META_DATA_STATUS_FREE :: c_char where
  "META_DATA_STATUS_FREE = 102"

definition META_DATA_STATUS_OCCUPIED :: c_char where
  "META_DATA_STATUS_OCCUPIED = 111"

text \<open>
  \<^verbatim>\<open>struct MetaData\<close> is packed: the 8 bytes of \<^verbatim>\<open>size\<close> (little-endian) are
  followed by the byte of \<^verbatim>\<open>status\<close>, so \<^verbatim>\<open>sizeof(struct MetaData)\<close> is 9.
\<close>

record MetaData =
  md_size :: size_t
  md_status :: c_char

definition meta_data_size :: size_t where
  "meta_data_size = 9"

text \<open>The three global pointers of the program, and the memory they point into.\<close>

record heap =
  heap_start :: addr
  heap_end :: addr
  heap_current_break :: addr
  bytes :: memory

section \<open>Access to the fields of a header in memory\<close>

definition byte_at :: "size_t \<Rightarrow> nat \<Rightarrow> 8 word" where
  "byte_at v k = ucast (drop_bit k v)"

text \<open>\<^verbatim>\<open>md->size\<close> for \<^verbatim>\<open>md = (struct MetaData *) p\<close>.\<close>

definition read_size :: "memory \<Rightarrow> addr \<Rightarrow> size_t" where
  "read_size m p =
     ucast (m p) OR push_bit 8 (ucast (m (p + 1))) OR push_bit 16 (ucast (m (p + 2)))
     OR push_bit 24 (ucast (m (p + 3))) OR push_bit 32 (ucast (m (p + 4)))
     OR push_bit 40 (ucast (m (p + 5))) OR push_bit 48 (ucast (m (p + 6)))
     OR push_bit 56 (ucast (m (p + 7)))"

text \<open>\<^verbatim>\<open>md->size = v\<close>.\<close>

definition write_size :: "memory \<Rightarrow> addr \<Rightarrow> size_t \<Rightarrow> memory" where
  "write_size m p v =
     m(p := byte_at v 0, p + 1 := byte_at v 8, p + 2 := byte_at v 16, p + 3 := byte_at v 24,
       p + 4 := byte_at v 32, p + 5 := byte_at v 40, p + 6 := byte_at v 48,
       p + 7 := byte_at v 56)"

text \<open>\<^verbatim>\<open>md->status\<close> and \<^verbatim>\<open>md->status = c\<close>.\<close>

definition read_status :: "memory \<Rightarrow> addr \<Rightarrow> c_char" where
  "read_status m p = m (p + 8)"

definition write_status :: "memory \<Rightarrow> addr \<Rightarrow> c_char \<Rightarrow> memory" where
  "write_status m p c = m(p + 8 := c)"

section \<open>The operations of the program\<close>

subsection \<open>\<^verbatim>\<open>mm_sbrk\<close>\<close>

text \<open>
  The function returns a pointer and may move \<^verbatim>\<open>heap_current_break\<close>; the model
  returns the pointer together with the heap. In \<^verbatim>\<open>heap_current_break + sz\<close> the
  \<^verbatim>\<open>int\<close> is sign-extended to the width of the pointer.
\<close>

definition mm_sbrk :: "c_int \<Rightarrow> heap \<Rightarrow> addr \<times> heap" where
  "mm_sbrk sz h =
     (if heap_start h = NULL \<or> heap_end h = NULL \<or> heap_current_break h = NULL
      then (MAP_FAILED, h)
      else if sz = 0 then (heap_current_break h, h)
      else if 0 <s sz \<and> heap_current_break h + scast sz \<le> heap_end h
      then (heap_current_break h,
            h\<lparr>heap_current_break := heap_current_break h + scast sz\<rparr>)
      else if sz <s 0 \<and> heap_start h \<le> heap_current_break h + scast sz
      then (heap_current_break h,
            h\<lparr>heap_current_break := heap_current_break h + scast sz\<rparr>)
      else (MAP_FAILED, h))"

subsection \<open>\<^verbatim>\<open>mm_print\<close>\<close>

text \<open>
  The printer walks the block list and prints one line per block. The model returns the
  lines as triples: block number, the word \<^verbatim>\<open>FREE\<close> or \<^verbatim>\<open>OCCP\<close>, and the size (the
  word \<^verbatim>\<open>byte\<close> or \<^verbatim>\<open>bytes\<close> that ends a line follows from the size). The loop runs
  as long as the cursor is below the break, so on arbitrary memory it need not end:
  \<open>None\<close> stands for a walk that never ends.
\<close>

partial_function (option) mm_print_loop ::
  "memory \<Rightarrow> addr \<Rightarrow> addr \<Rightarrow> c_int \<Rightarrow> (c_int \<times> string \<times> size_t) list option" where
  "mm_print_loop m cur_heap_break cur i =
     (if cur < cur_heap_break
      then Option.bind
             (mm_print_loop m cur_heap_break (cur + (meta_data_size + read_size m cur)) (i + 1))
             (\<lambda>rest.
               Some ((i, if read_status m cur = META_DATA_STATUS_FREE then ''FREE'' else ''OCCP'',
                      read_size m cur) # rest))
      else Some [])"

definition mm_print :: "heap \<Rightarrow> (c_int \<times> string \<times> size_t) list option" where
  "mm_print h = mm_print_loop (bytes h) (fst (mm_sbrk 0 h)) (heap_start h) 1"

subsection \<open>\<^verbatim>\<open>mm_malloc\<close>\<close>

definition enoughToSplit :: "memory \<Rightarrow> addr \<Rightarrow> size_t \<Rightarrow> c_int" where
  "enoughToSplit m md sz = (if sz + meta_data_size < read_size m md then 1 else 0)"

text \<open>
  The writes of the loop body once a block satisfies the request: the split, when there
  is room for it, and the mark on the block.
\<close>

definition take_block :: "memory \<Rightarrow> addr \<Rightarrow> size_t \<Rightarrow> memory" where
  "take_block m cur sz =
     write_status
       (if enoughToSplit m cur sz = 1
        then write_size
               (write_status
                  (write_size m (cur + meta_data_size + sz)
                     (read_size m cur - sz - meta_data_size))
                  (cur + meta_data_size + sz) META_DATA_STATUS_FREE)
               cur sz
        else m)
       cur META_DATA_STATUS_OCCUPIED"

text \<open>
  The search loop of \<^verbatim>\<open>mm_malloc\<close>. It leaves either through the \<^verbatim>\<open>return\<close> inside
  the loop (\<open>Inl\<close>: the returned pointer and the memory after the writes) or by running
  past the break (\<open>Inr\<close>: the value of \<^verbatim>\<open>lastBlock\<close>).
\<close>

partial_function (option) mm_malloc_loop ::
  "size_t \<Rightarrow> addr \<Rightarrow> addr \<Rightarrow> addr \<Rightarrow> memory \<Rightarrow> ((addr \<times> memory) + addr) option" where
  "mm_malloc_loop sz cur_heap_break cur lastBlock m =
     (if cur < cur_heap_break
      then (if read_status m cur = META_DATA_STATUS_FREE \<and> sz \<le> read_size m cur
            then Some (Inl (cur + meta_data_size, take_block m cur sz))
            else mm_malloc_loop sz cur_heap_break
                   (cur + (meta_data_size + read_size m cur)) cur m)
      else Some (Inr lastBlock))"

text \<open>
  After the loop: a new block behind the break, or the last block grown in place. The
  result of \<^verbatim>\<open>mm_sbrk\<close> is used without a test. In the first branch it is the address
  of the new header, \<^verbatim>\<open>start\<close>: when \<^verbatim>\<open>mm_sbrk\<close> has refused, the store
  \<^verbatim>\<open>md->size = size\<close> goes through \<^verbatim>\<open>MAP_FAILED\<close> and the call ends in a fault
  (\<open>Inl\<close>) instead of a return (\<open>Inr\<close>: the returned pointer and the heap). In the second
  branch the result of \<^verbatim>\<open>mm_sbrk\<close> is dropped and the stores go through
  \<^verbatim>\<open>lastBlock\<close>, whether the arena has grown or not. The argument of \<^verbatim>\<open>mm_sbrk\<close> is
  an \<^verbatim>\<open>int\<close>, and so is \<^verbatim>\<open>remainingSize\<close>: the \<^verbatim>\<open>size_t\<close> value is cut to its low
  32 bits.
\<close>

definition mm_malloc_grow :: "size_t \<Rightarrow> addr \<Rightarrow> heap \<Rightarrow> fault + addr \<times> heap" where
  "mm_malloc_grow sz lastBlock h =
     (if lastBlock = NULL \<or> read_status (bytes h) lastBlock = META_DATA_STATUS_OCCUPIED
      then (let (start, h1) = mm_sbrk (ucast (sz + meta_data_size)) h
            in if start = MAP_FAILED then Inl SIGSEGV
               else Inr (start + meta_data_size,
                         h1\<lparr>bytes := write_status (write_size (bytes h1) start sz) start
                                         META_DATA_STATUS_OCCUPIED\<rparr>))
      else (let remainingSize = (ucast (sz - read_size (bytes h) lastBlock) :: c_int);
                (start, h1) = mm_sbrk remainingSize h
            in Inr (lastBlock + meta_data_size,
                    h1\<lparr>bytes := write_status (write_size (bytes h1) lastBlock sz) lastBlock
                                    META_DATA_STATUS_OCCUPIED\<rparr>)))"

text \<open>
  A call of \<^verbatim>\<open>mm_malloc\<close> has three outcomes: the search loop never ends (\<open>None\<close>), the
  call faults (\<open>Some (Inl SIGSEGV)\<close>), or it returns a pointer and leaves a heap
  (\<open>Some (Inr (p, h'))\<close>).
\<close>

definition mm_malloc :: "size_t \<Rightarrow> heap \<Rightarrow> (fault + addr \<times> heap) option" where
  "mm_malloc sz h =
     Option.bind (mm_malloc_loop sz (fst (mm_sbrk 0 h)) (heap_start h) NULL (bytes h))
       (\<lambda>r. case r of
              Inl (p, m) \<Rightarrow> Some (Inr (p, h\<lparr>bytes := m\<rparr>))
            | Inr lastBlock \<Rightarrow> Some (mm_malloc_grow sz lastBlock h))"

subsection \<open>\<^verbatim>\<open>mm_free\<close>\<close>

definition mm_free :: "addr \<Rightarrow> heap \<Rightarrow> heap" where
  "mm_free p h = h\<lparr>bytes := write_status (bytes h) (p - meta_data_size) META_DATA_STATUS_FREE\<rparr>"

subsection \<open>\<^verbatim>\<open>mm_combine_nearby_free\<close>\<close>

text \<open>
  The inner loop absorbs free successors into the block at \<^verbatim>\<open>cur\<close>. It ends in one of
  three ways: its condition fails or it meets \<^verbatim>\<open>break\<close> (\<open>False\<close>: the outer loop goes
  on), or it meets \<^verbatim>\<open>return\<close> (\<open>True\<close>: the function is left).
\<close>

partial_function (option) combine_inner ::
  "addr \<Rightarrow> addr \<Rightarrow> memory \<Rightarrow> (bool \<times> memory) option" where
  "combine_inner cur_heap_break cur m =
     (if cur < cur_heap_break \<and> read_status m cur = META_DATA_STATUS_FREE
      then (if cur + meta_data_size + read_size m cur < cur_heap_break
            then (if read_status m (cur + meta_data_size + read_size m cur)
                       = META_DATA_STATUS_FREE
                  then combine_inner cur_heap_break cur
                         (write_size m cur
                            (read_size m cur
                             + (meta_data_size
                                + read_size m (cur + meta_data_size + read_size m cur))))
                  else Some (False, m))
            else Some (True, m))
      else Some (False, m))"

partial_function (option) combine_outer :: "addr \<Rightarrow> addr \<Rightarrow> memory \<Rightarrow> memory option" where
  "combine_outer cur_heap_break cur m =
     (if cur < cur_heap_break
      then Option.bind (combine_inner cur_heap_break cur m)
             (\<lambda>(returned, m').
               if returned then Some m'
               else combine_outer cur_heap_break
                      (cur + (meta_data_size + read_size m' cur)) m')
      else Some m)"

definition mm_combine_nearby_free :: "heap \<Rightarrow> heap option" where
  "mm_combine_nearby_free h =
     map_option (\<lambda>m. h\<lparr>bytes := m\<rparr>)
       (combine_outer (fst (mm_sbrk 0 h)) (heap_start h) (bytes h))"

section \<open>Block lists in memory\<close>

text \<open>
  \<open>chain m a bs b\<close>: the headers \<open>bs\<close> lie in memory \<open>m\<close> one behind the other, the
  first at address \<open>a\<close>, each followed by its payload, and the last payload ends exactly
  at address \<open>b\<close>. Addresses are natural numbers here, so nothing wraps around.
\<close>

fun chain :: "memory \<Rightarrow> nat \<Rightarrow> MetaData list \<Rightarrow> nat \<Rightarrow> bool" where
  "chain m a [] b = (a = b)"
| "chain m a (md # mds) b =
     (read_size m (of_nat a) = md_size md \<and> read_status m (of_nat a) = md_status md
      \<and> chain m (a + 9 + unat (md_size md)) mds b)"

text \<open>The address behind a run of blocks that starts at \<open>a\<close>.\<close>

fun block_end :: "nat \<Rightarrow> MetaData list \<Rightarrow> nat" where
  "block_end a [] = a"
| "block_end a (md # mds) = block_end (a + 9 + unat (md_size md)) mds"

text \<open>
  The arena as \<^verbatim>\<open>main\<close> sets it up: \<^verbatim>\<open>heap_start\<close> is the address of a mapped region of
  \<^verbatim>\<open>HEAP_SIZE\<close> bytes (so it is not null and the region does not wrap around the address
  space), \<^verbatim>\<open>heap_end = heap_start + HEAP_SIZE\<close>, and the break lies between them.
\<close>

definition arena_ok :: "heap \<Rightarrow> bool" where
  "arena_ok h \<longleftrightarrow>
     heap_start h \<noteq> NULL
     \<and> unat (heap_start h) + unat HEAP_SIZE < 2 ^ 64
     \<and> heap_end h = heap_start h + ucast HEAP_SIZE
     \<and> heap_start h \<le> heap_current_break h \<and> heap_current_break h \<le> heap_end h"

text \<open>The block list of a heap: the headers between \<^verbatim>\<open>heap_start\<close> and the break.\<close>

definition heap_blocks :: "heap \<Rightarrow> MetaData list \<Rightarrow> bool" where
  "heap_blocks h bs \<longleftrightarrow>
     chain (bytes h) (unat (heap_start h)) bs (unat (heap_current_break h))"

text \<open>The lines \<^verbatim>\<open>mm_print\<close> prints for a block list, numbered from \<open>i\<close>.\<close>

fun block_lines :: "c_int \<Rightarrow> MetaData list \<Rightarrow> (c_int \<times> string \<times> size_t) list" where
  "block_lines i [] = []"
| "block_lines i (md # mds) =
     (i, if md_status md = META_DATA_STATUS_FREE then ''FREE'' else ''OCCP'', md_size md)
     # block_lines (i + 1) mds"

text \<open>
  \<open>unchanged m m' lo hi\<close>: the memories \<open>m\<close> and \<open>m'\<close> hold the same bytes at the
  addresses from \<open>lo\<close> up to, not including, \<open>hi\<close>.
\<close>

definition unchanged :: "memory \<Rightarrow> memory \<Rightarrow> nat \<Rightarrow> nat \<Rightarrow> bool" where
  "unchanged m m' lo hi \<longleftrightarrow> (\<forall>x. lo \<le> x \<longrightarrow> x < hi \<longrightarrow> m' (of_nat x) = m (of_nat x))"

section \<open>Notions used in the statements\<close>

text \<open>The test of the search loop: the block is free and large enough.\<close>

definition fits :: "size_t \<Rightarrow> MetaData \<Rightarrow> bool" where
  "fits sz md \<longleftrightarrow> md_status md = META_DATA_STATUS_FREE \<and> sz \<le> md_size md"

text \<open>
  What becomes of a block of size \<open>S\<close> that satisfies a request for \<open>sz\<close> bytes: with
  \<open>S > sz + 9\<close> an occupied block of size \<open>sz\<close> followed by a free block of size
  \<open>S - sz - 9\<close>, otherwise the block itself, occupied.
\<close>

definition carve :: "size_t \<Rightarrow> MetaData \<Rightarrow> MetaData list" where
  "carve sz md =
     (if unat sz + 9 < unat (md_size md)
      then [\<lparr>md_size = sz, md_status = META_DATA_STATUS_OCCUPIED\<rparr>,
            \<lparr>md_size = md_size md - sz - 9, md_status = META_DATA_STATUS_FREE\<rparr>]
      else [md\<lparr>md_status := META_DATA_STATUS_OCCUPIED\<rparr>])"

text \<open>The three global pointers are set: \<^verbatim>\<open>mm_sbrk\<close> refuses to work otherwise.\<close>

definition initialized :: "heap \<Rightarrow> bool" where
  "initialized h \<longleftrightarrow>
     heap_start h \<noteq> NULL \<and> heap_end h \<noteq> NULL \<and> heap_current_break h \<noteq> NULL"

text \<open>
  The growth a request for \<open>sz\<close> bytes asks of \<^verbatim>\<open>mm_sbrk\<close> when no block of the list
  \<open>bs\<close> satisfies it: a new block with its header when the list is empty or ends in an
  occupied block, and the missing bytes of the last block otherwise.
\<close>

definition needed_growth :: "size_t \<Rightarrow> MetaData list \<Rightarrow> nat" where
  "needed_growth sz bs =
     (if bs = [] \<or> md_status (last bs) = META_DATA_STATUS_OCCUPIED then unat sz + 9
      else unat sz - unat (md_size (last bs)))"

text \<open>The argument of that call of \<^verbatim>\<open>mm_sbrk\<close>, as the \<^verbatim>\<open>int\<close> the program passes.\<close>

definition growth_request :: "size_t \<Rightarrow> MetaData list \<Rightarrow> c_int" where
  "growth_request sz bs =
     (if bs = [] \<or> md_status (last bs) = META_DATA_STATUS_OCCUPIED
      then ucast (sz + meta_data_size)
      else ucast (sz - md_size (last bs)))"

section \<open>Coalescing on block lists\<close>

definition is_free :: "MetaData \<Rightarrow> bool" where
  "is_free md \<longleftrightarrow> md_status md = META_DATA_STATUS_FREE"

text \<open>
  The size of the block that replaces a run of free blocks: the payload sizes of the run
  plus one header for every block of the run but the first.
\<close>

definition merged_size :: "MetaData list \<Rightarrow> size_t" where
  "merged_size run = sum_list (map md_size run) + meta_data_size * of_nat (length run - 1)"

text \<open>
  Every maximal run of consecutive free blocks becomes one free block; the other blocks
  stay.
\<close>

function collapse_free_runs :: "MetaData list \<Rightarrow> MetaData list" where
  "collapse_free_runs [] = []"
| "collapse_free_runs (md # mds) =
     (if is_free md
      then \<lparr>md_size = merged_size (md # takeWhile is_free mds),
            md_status = META_DATA_STATUS_FREE\<rparr>
           # collapse_free_runs (dropWhile is_free mds)
      else md # collapse_free_runs mds)"
  by pat_completeness auto
termination
  by (relation "measure length") (auto simp add: le_imp_less_Suc length_dropWhile_le)

text \<open>No two neighbours of the list are both free.\<close>

fun no_adjacent_free :: "MetaData list \<Rightarrow> bool" where
  "no_adjacent_free [] = True"
| "no_adjacent_free [x] = True"
| "no_adjacent_free (x # y # zs) = (\<not> (is_free x \<and> is_free y) \<and> no_adjacent_free (y # zs))"

text \<open>The blocks of a list that starts at address \<open>a\<close>, each with its address.\<close>

fun block_addresses :: "nat \<Rightarrow> MetaData list \<Rightarrow> (nat \<times> MetaData) list" where
  "block_addresses a [] = []"
| "block_addresses a (md # mds) = (a, md) # block_addresses (a + 9 + unat (md_size md)) mds"

section \<open>Reachable heaps\<close>

text \<open>
  The walk that the loops of \<^verbatim>\<open>mm_print\<close>, \<^verbatim>\<open>mm_malloc\<close> and
  \<^verbatim>\<open>mm_combine_nearby_free\<close> share: from \<open>cur\<close>, step by \<open>meta_data_size + md->size\<close>
  as long as \<open>cur\<close> is below the break. The result is the cursor at the end of the walk.
\<close>

partial_function (option) walk_end :: "memory \<Rightarrow> addr \<Rightarrow> addr \<Rightarrow> addr option" where
  "walk_end m cur_heap_break cur =
     (if cur < cur_heap_break
      then walk_end m cur_heap_break (cur + (meta_data_size + read_size m cur))
      else Some cur)"

text \<open>
  \<^verbatim>\<open>mm_malloc\<close> has no failure value of its own. A call counts as successful when a
  block satisfied the request (the loop left through its \<^verbatim>\<open>return\<close>) or when the growth
  it asks of \<^verbatim>\<open>mm_sbrk\<close> fits between the break and \<^verbatim>\<open>heap_end\<close>.
\<close>

definition malloc_succeeds :: "size_t \<Rightarrow> heap \<Rightarrow> bool" where
  "malloc_succeeds sz h \<longleftrightarrow>
     (case mm_malloc_loop sz (fst (mm_sbrk 0 h)) (heap_start h) NULL (bytes h) of
        None \<Rightarrow> False
      | Some (Inl r) \<Rightarrow> True
      | Some (Inr lastBlock) \<Rightarrow>
          (if lastBlock = NULL \<or> read_status (bytes h) lastBlock = META_DATA_STATUS_OCCUPIED
           then unat (heap_current_break h) + (unat sz + 9) \<le> unat (heap_end h)
           else unat (heap_current_break h) + (unat sz - unat (read_size (bytes h) lastBlock))
                  \<le> unat (heap_end h)))"

text \<open>
  The heaps the program can reach. \<^verbatim>\<open>main\<close> maps \<^verbatim>\<open>HEAP_SIZE\<close> bytes at some address
  and sets the break to the start of the region, whatever the memory holds; then it
  allocates, frees the payload address of a block of the list, and coalesces.
\<close>

inductive reachable :: "heap \<Rightarrow> bool" where
  start:
    "a \<noteq> NULL \<Longrightarrow> unat a + unat HEAP_SIZE < 2 ^ 64 \<Longrightarrow>
     reachable \<lparr>heap_start = a, heap_end = a + ucast HEAP_SIZE, heap_current_break = a,
                bytes = m\<rparr>"
| malloc:
    "reachable h \<Longrightarrow> malloc_succeeds sz h \<Longrightarrow> mm_malloc sz h = Some (Inr (p, h')) \<Longrightarrow>
     reachable h'"
| free:
    "reachable h \<Longrightarrow> heap_blocks h (pre @ md # post) \<Longrightarrow>
     p = of_nat (block_end (unat (heap_start h)) pre) + meta_data_size \<Longrightarrow>
     reachable (mm_free p h)"
| combine:
    "reachable h \<Longrightarrow> mm_combine_nearby_free h = Some h' \<Longrightarrow> reachable h'"

text \<open>Every block of the list is marked free or occupied.\<close>

definition statuses_ok :: "MetaData list \<Rightarrow> bool" where
  "statuses_ok bs \<longleftrightarrow>
     (\<forall>b\<in>set bs. md_status b = META_DATA_STATUS_FREE
                  \<or> md_status b = META_DATA_STATUS_OCCUPIED)"

text \<open>The bytes of a block, header and payload, as a set of addresses.\<close>

definition block_range :: "nat \<times> MetaData \<Rightarrow> nat set" where
  "block_range b = {fst b ..< fst b + 9 + unat (md_size (snd b))}"

text \<open>No two blocks of the list share a byte.\<close>

definition no_overlap :: "(nat \<times> MetaData) list \<Rightarrow> bool" where
  "no_overlap bl \<longleftrightarrow>
     (\<forall>i < length bl. \<forall>j < length bl.
        i \<noteq> j \<longrightarrow> block_range (bl ! i) \<inter> block_range (bl ! j) = {})"

section \<open>Example heaps\<close>

text \<open>Memory \<open>m\<close> with a header of the given size and status written at \<open>p\<close>.\<close>

definition with_header :: "memory \<Rightarrow> addr \<Rightarrow> size_t \<Rightarrow> c_char \<Rightarrow> memory" where
  "with_header m p sz st = write_status (write_size m p sz) p st"

text \<open>
  Arenas at address 4096: an occupied block of 10 bytes and one of 5 bytes; a free block
  of 30 bytes before an occupied block of 5 bytes; free blocks of 2, 10 and 5 bytes; an
  occupied block of 5 bytes before a free block of 2 bytes.
\<close>

definition two_blocks :: heap where
  "two_blocks = \<lparr>heap_start = 4096, heap_end = 12096, heap_current_break = 4129,
     bytes = with_header (with_header (\<lambda>_. 0) 4096 10 META_DATA_STATUS_OCCUPIED)
               4115 5 META_DATA_STATUS_OCCUPIED\<rparr>"

definition free_30_occ_5 :: heap where
  "free_30_occ_5 = \<lparr>heap_start = 4096, heap_end = 12096, heap_current_break = 4149,
     bytes = with_header (with_header (\<lambda>_. 0) 4096 30 META_DATA_STATUS_FREE)
               4135 5 META_DATA_STATUS_OCCUPIED\<rparr>"

definition free_2_10_5 :: heap where
  "free_2_10_5 = \<lparr>heap_start = 4096, heap_end = 12096, heap_current_break = 4140,
     bytes = with_header (with_header (with_header (\<lambda>_. 0) 4096 2 META_DATA_STATUS_FREE)
               4107 10 META_DATA_STATUS_FREE) 4126 5 META_DATA_STATUS_FREE\<rparr>"

definition occ_5_free_2 :: heap where
  "occ_5_free_2 = \<lparr>heap_start = 4096, heap_end = 12096, heap_current_break = 4121,
     bytes = with_header (with_header (\<lambda>_. 0) 4096 5 META_DATA_STATUS_OCCUPIED)
               4110 2 META_DATA_STATUS_FREE\<rparr>"

text \<open>
  Arenas at address \<open>2 ^ 32\<close>: one whose break has been moved up by 100 bytes, one
  as \<^verbatim>\<open>main\<close> sets it up, with no block yet, and one with a single free block of 2
  bytes.
\<close>

definition sbrk_heap :: heap where
  "sbrk_heap = \<lparr>heap_start = 4294967296, heap_end = 4294975296,
     heap_current_break = 4294967396, bytes = (\<lambda>_. 0)\<rparr>"

definition empty_arena :: heap where
  "empty_arena = \<lparr>heap_start = 4294967296, heap_end = 4294975296,
     heap_current_break = 4294967296, bytes = (\<lambda>_. 0)\<rparr>"

definition high_free_2 :: heap where
  "high_free_2 = \<lparr>heap_start = 4294967296, heap_end = 4294975296,
     heap_current_break = 4294967307,
     bytes = with_header (\<lambda>_. 0) 4294967296 2 META_DATA_STATUS_FREE\<rparr>"

text \<open>An arena at address 4096 with free blocks of 3, 4 and 5 bytes.\<close>

definition free_3_4_5 :: heap where
  "free_3_4_5 = \<lparr>heap_start = 4096, heap_end = 12096, heap_current_break = 4135,
     bytes = with_header (with_header (with_header (\<lambda>_. 0) 4096 3 META_DATA_STATUS_FREE)
               4108 4 META_DATA_STATUS_FREE) 4121 5 META_DATA_STATUS_FREE\<rparr>"

text \<open>The arena at address \<open>2 ^ 32\<close> after \<^verbatim>\<open>mm_malloc(10)\<close>.\<close>

definition one_block :: heap where
  "one_block = \<lparr>heap_start = 4294967296, heap_end = 4294975296,
     heap_current_break = 4294967315,
     bytes = with_header (\<lambda>_. 0) 4294967296 10 META_DATA_STATUS_OCCUPIED\<rparr>"

text \<open>The same arena after \<^verbatim>\<open>mm_malloc(10)\<close> and \<^verbatim>\<open>mm_malloc(5)\<close>.\<close>

definition two_allocations :: heap where
  "two_allocations = \<lparr>heap_start = 4294967296, heap_end = 4294975296,
     heap_current_break = 4294967329,
     bytes = with_header (with_header (\<lambda>_. 0) 4294967296 10 META_DATA_STATUS_OCCUPIED)
               4294967315 5 META_DATA_STATUS_OCCUPIED\<rparr>"

section \<open>Reading and writing headers\<close>

lemma bit_byte_at:
  "bit (push_bit k (ucast (byte_at v k)) :: 64 word) n
     = (k \<le> n \<and> n < k + 8 \<and> n < 64 \<and> bit v n)"
proof (cases "k \<le> n")
  case True
  then obtain d where d: "n = k + d"
    using le_Suc_ex by blast
  show ?thesis
    unfolding byte_at_def d by (auto simp add: bit_simps)
next
  case False
  then show ?thesis
    by (simp add: bit_simps)
qed

lemma bytes_join:
  "ucast (byte_at v 0) OR push_bit 8 (ucast (byte_at v 8)) OR push_bit 16 (ucast (byte_at v 16))
     OR push_bit 24 (ucast (byte_at v 24)) OR push_bit 32 (ucast (byte_at v 32))
     OR push_bit 40 (ucast (byte_at v 40)) OR push_bit 48 (ucast (byte_at v 48))
     OR push_bit 56 (ucast (byte_at v 56)) = (v :: 64 word)"
proof (rule bit_word_eqI)
  fix n :: nat
  assume n: "n < LENGTH(64)"
  have z: "ucast (byte_at v 0) = (push_bit 0 (ucast (byte_at v 0)) :: 64 word)"
    by simp
  have c: "n < 8 \<or> 8 \<le> n \<and> n < 16 \<or> 16 \<le> n \<and> n < 24 \<or> 24 \<le> n \<and> n < 32
       \<or> 32 \<le> n \<and> n < 40 \<or> 40 \<le> n \<and> n < 48 \<or> 48 \<le> n \<and> n < 56 \<or> 56 \<le> n \<and> n < 64"
    using n by simp linarith
  show "bit (ucast (byte_at v 0) OR push_bit 8 (ucast (byte_at v 8))
     OR push_bit 16 (ucast (byte_at v 16))
     OR push_bit 24 (ucast (byte_at v 24)) OR push_bit 32 (ucast (byte_at v 32))
     OR push_bit 40 (ucast (byte_at v 40)) OR push_bit 48 (ucast (byte_at v 48))
     OR push_bit 56 (ucast (byte_at v 56)) :: 64 word) n = bit v n"
    apply (subst z)
    apply (simp only: bit_or_iff bit_byte_at)
    using c n apply (cases "bit v n")
     apply simp_all
    done
qed

lemma read_size_write_size [simp]: "read_size (write_size m p v) p = v"
  unfolding read_size_def write_size_def by (simp add: bytes_join)

lemma read_status_write_status [simp]: "read_status (write_status m p c) p = c"
  by (simp add: read_status_def write_status_def)

lemma read_status_write_size [simp]: "read_status (write_size m p v) p = read_status m p"
  by (simp add: read_status_def write_size_def)

lemma read_size_write_status [simp]: "read_size (write_status m p c) p = read_size m p"
  by (simp add: read_size_def write_status_def)

section \<open>Memory outside a write, and block lists\<close>

lemma of_nat_addr_inj:
  "a < 2 ^ 64 \<Longrightarrow> b < 2 ^ 64 \<Longrightarrow> ((of_nat a :: addr) = of_nat b) = (a = b)"
  by (simp add: word_of_nat_eq_iff take_bit_nat_eq_self)

lemma unat_of_nat_addr: "a < 2 ^ 64 \<Longrightarrow> unat (of_nat a :: addr) = a"
  by (simp add: unat_of_nat take_bit_nat_eq_self)

lemma of_nat_less_addr:
  "a < 2 ^ 64 \<Longrightarrow> ((of_nat a :: addr) < brk) = (a < unat brk)"
  by (simp add: word_less_nat_alt unat_of_nat_addr)

lemma unat_addr_less: "unat (a :: addr) < 2 ^ 64"
  using unsigned_less [of a, where 'a = nat] by simp

lemma unchanged_refl [simp]: "unchanged m m lo hi"
  by (simp add: unchanged_def)

lemma unchanged_trans:
  "unchanged m m' lo hi \<Longrightarrow> unchanged m' m'' lo hi \<Longrightarrow> unchanged m m'' lo hi"
  by (simp add: unchanged_def)

lemma unchanged_mono:
  "unchanged m m' lo hi \<Longrightarrow> lo \<le> lo' \<Longrightarrow> hi' \<le> hi \<Longrightarrow> unchanged m m' lo' hi'"
  by (simp add: unchanged_def)

lemma unchanged_byte:
  "unchanged m m' lo hi \<Longrightarrow> lo \<le> a + k \<Longrightarrow> a + k < hi
     \<Longrightarrow> m' (of_nat a + of_nat k) = m (of_nat a + of_nat k)"
  unfolding unchanged_def by (metis of_nat_add)

lemma unchanged_read_size:
  assumes "unchanged m m' a (a + 8)"
  shows "read_size m' (of_nat a) = read_size m (of_nat a)"
proof -
  have "m' (of_nat a + of_nat k) = m (of_nat a + of_nat k)" if "k < 8" for k
    using assms that by (intro unchanged_byte [where lo = a and hi = "a + 8"]) simp_all
  from this [of 0] this [of 1] this [of 2] this [of 3] this [of 4] this [of 5] this [of 6]
    this [of 7]
  show ?thesis
    by (simp add: read_size_def)
qed

lemma unchanged_read_status:
  assumes "unchanged m m' (a + 8) (a + 9)"
  shows "read_status m' (of_nat a) = read_status m (of_nat a)"
  using unchanged_byte [OF assms, of a 8] by (simp add: read_status_def)

lemma write_byte_unchanged:
  assumes "p + k < lo \<or> hi \<le> p + k" "hi \<le> 2 ^ 64" "p + k < 2 ^ 64"
  shows "unchanged m (m(of_nat p + of_nat k := c)) lo hi"
  unfolding unchanged_def
proof (intro allI impI)
  fix x assume x: "lo \<le> x" "x < hi"
  then have "x < 2 ^ 64" "x \<noteq> p + k"
    using assms by auto
  then have "(of_nat x :: addr) \<noteq> of_nat (p + k)"
    using assms(3) by (simp only: of_nat_addr_inj) simp
  then show "(m(of_nat p + of_nat k := c)) (of_nat x) = m (of_nat x)"
    by simp
qed

lemma unchanged_write_status:
  assumes "hi \<le> p + 8 \<or> p + 9 \<le> lo" "hi \<le> 2 ^ 64" "p + 9 \<le> 2 ^ 64"
  shows "unchanged m (write_status m (of_nat p) c) lo hi"
  using write_byte_unchanged [of p 8 lo hi m c] assms
  by (auto simp add: write_status_def)

lemma unchanged_write_size:
  assumes "hi \<le> p \<or> p + 8 \<le> lo" "hi \<le> 2 ^ 64" "p + 8 \<le> 2 ^ 64"
  shows "unchanged m (write_size m (of_nat p) v) lo hi"
proof -
  have step: "unchanged m0 (m0(of_nat p + of_nat k := c)) lo hi" if "k < 8" for m0 k c
    using assms that by (intro write_byte_unchanged) auto
  have "unchanged m (m(of_nat p + of_nat 0 := byte_at v 0, of_nat p + of_nat 1 := byte_at v 8,
     of_nat p + of_nat 2 := byte_at v 16, of_nat p + of_nat 3 := byte_at v 24,
     of_nat p + of_nat 4 := byte_at v 32, of_nat p + of_nat 5 := byte_at v 40,
     of_nat p + of_nat 6 := byte_at v 48, of_nat p + of_nat 7 := byte_at v 56)) lo hi"
    by (intro unchanged_trans [OF _ step] step) simp_all
  then show ?thesis
    by (simp add: write_size_def)
qed

lemma chain_le: "chain m a bs b \<Longrightarrow> a \<le> b"
proof (induction bs arbitrary: a)
  case Nil
  then show ?case by simp
next
  case (Cons md mds)
  from Cons.IH [of "a + 9 + unat (md_size md)"] Cons.prems show ?case
    by simp
qed

lemma chain_Cons_less: "chain m a (md # mds) b \<Longrightarrow> a + 9 + unat (md_size md) \<le> b"
  by (auto dest: chain_le)

lemma chain_end: "chain m a bs b \<Longrightarrow> b = block_end a bs"
  by (induction bs arbitrary: a) auto

lemma block_end_append: "block_end a (xs @ ys) = block_end (block_end a xs) ys"
  by (induction xs arbitrary: a) auto

lemma block_end_ge: "a \<le> block_end a bs"
proof (induction bs arbitrary: a)
  case Nil
  then show ?case by simp
next
  case (Cons md mds)
  from Cons.IH [of "a + 9 + unat (md_size md)"] show ?case
    by simp
qed

lemma chain_append:
  "chain m a (xs @ ys) b = (chain m a xs (block_end a xs) \<and> chain m (block_end a xs) ys b)"
  by (induction xs arbitrary: a) auto

lemma chain_unchanged:
  "chain m a bs b \<Longrightarrow> unchanged m m' a b \<Longrightarrow> chain m' a bs b"
proof (induction bs arbitrary: a)
  case Nil
  then show ?case by simp
next
  case (Cons md mds)
  from Cons.prems(1) have le: "a + 9 + unat (md_size md) \<le> b"
    by (rule chain_Cons_less)
  have "read_size m' (of_nat a) = read_size m (of_nat a)"
    using le by (intro unchanged_read_size unchanged_mono [OF Cons.prems(2)]) simp_all
  moreover have "read_status m' (of_nat a) = read_status m (of_nat a)"
    using le by (intro unchanged_read_status unchanged_mono [OF Cons.prems(2)]) simp_all
  moreover have "chain m' (a + 9 + unat (md_size md)) mds b"
    using Cons.prems by (intro Cons.IH unchanged_mono [OF Cons.prems(2)]) simp_all
  ultimately show ?case
    using Cons.prems(1) by simp
qed

lemma arena_ok_initialized:
  assumes "arena_ok h"
  shows "heap_start h \<noteq> NULL" "heap_current_break h \<noteq> NULL" "heap_end h \<noteq> NULL"
proof -
  show s: "heap_start h \<noteq> NULL"
    using assms by (simp add: arena_ok_def)
  have "heap_start h \<le> heap_current_break h" "heap_current_break h \<le> heap_end h"
    using assms unfolding arena_ok_def by blast+
  then show "heap_current_break h \<noteq> NULL" "heap_end h \<noteq> NULL"
    using s by (auto simp add: NULL_def)
qed

lemma mm_sbrk_0 [simp]: "arena_ok h \<Longrightarrow> mm_sbrk 0 h = (heap_current_break h, h)"
  by (simp add: mm_sbrk_def arena_ok_initialized)

lemma arena_ok_unat:
  assumes "arena_ok h"
  shows "unat (heap_end h) = unat (heap_start h) + 8000"
    "unat (heap_start h) \<le> unat (heap_current_break h)"
    "unat (heap_current_break h) \<le> unat (heap_start h) + 8000"
    "0 < unat (heap_start h)"
proof -
  have n: "unat (heap_start h) + 8000 < 2 ^ 64" and e: "heap_end h = heap_start h + 8000"
    using assms by (simp_all add: arena_ok_def HEAP_SIZE_def)
  show 1: "unat (heap_end h) = unat (heap_start h) + 8000"
    unfolding e using n by (simp add: unat_add_lem [THEN iffD1])
  have "heap_start h \<le> heap_current_break h" "heap_current_break h \<le> heap_end h"
    using assms unfolding arena_ok_def by blast+
  then show "unat (heap_start h) \<le> unat (heap_current_break h)"
    "unat (heap_current_break h) \<le> unat (heap_start h) + 8000"
    using 1 by (simp_all add: word_le_nat_alt)
  show "0 < unat (heap_start h)"
    using assms by (simp add: arena_ok_def NULL_def unat_gt_0)
qed

lemma advance_of_nat:
  "(of_nat a :: addr) + (meta_data_size + sz) = of_nat (a + 9 + unat sz)"
  by (simp add: meta_data_size_def)

lemma mm_print_loop_chain:
  "chain m a bs (unat brk) \<Longrightarrow> mm_print_loop m brk (of_nat a) i = Some (block_lines i bs)"
proof (induction bs arbitrary: a i)
  case Nil
  then show ?case
    by (subst mm_print_loop.simps) simp
next
  case (Cons md mds)
  from Cons.prems have le: "a + 9 + unat (md_size md) \<le> unat brk"
    by (rule chain_Cons_less)
  then have "a < 2 ^ 64" "a < unat brk"
    using unat_addr_less [of brk] by simp_all
  then have lt: "(of_nat a :: addr) < brk"
    by (simp add: of_nat_less_addr)
  have "mm_print_loop m brk (of_nat (a + 9 + unat (md_size md))) (i + 1)
          = Some (block_lines (i + 1) mds)"
    using Cons.prems by (intro Cons.IH) simp
  then show ?case
    using Cons.prems lt by (subst mm_print_loop.simps) (simp add: advance_of_nat)
qed

lemma mm_print_heap_blocks:
  "arena_ok h \<Longrightarrow> heap_blocks h bs \<Longrightarrow> mm_print h = Some (block_lines 1 bs)"
  using mm_print_loop_chain [of "bytes h" "unat (heap_start h)" bs "heap_current_break h" 1]
  by (simp add: mm_print_def heap_blocks_def)

lemma payload_minus_header: "of_nat a + meta_data_size - meta_data_size = (of_nat a :: addr)"
  by simp

lemma read_size_write_size_other:
  assumes "unat q + 8 \<le> unat p \<or> unat p + 8 \<le> unat q" "unat p + 8 \<le> 2 ^ 64" "unat q + 8 \<le> 2 ^ 64"
  shows "read_size (write_size m q v) p = read_size m p"
proof -
  have "unchanged m (write_size m (of_nat (unat q)) v) (unat p) (unat p + 8)"
    using assms by (intro unchanged_write_size) auto
  then have "read_size (write_size m (of_nat (unat q)) v) (of_nat (unat p)) = read_size m (of_nat (unat p))"
    by (rule unchanged_read_size)
  then show ?thesis by simp
qed

lemma read_size_write_status_other:
  assumes "unat q + 9 \<le> unat p \<or> unat p \<le> unat q" "unat p + 8 \<le> 2 ^ 64" "unat q + 9 \<le> 2 ^ 64"
  shows "read_size (write_status m q c) p = read_size m p"
proof -
  have "unchanged m (write_status m (of_nat (unat q)) c) (unat p) (unat p + 8)"
    using assms by (intro unchanged_write_status) auto
  then have "read_size (write_status m (of_nat (unat q)) c) (of_nat (unat p)) = read_size m (of_nat (unat p))"
    by (rule unchanged_read_size)
  then show ?thesis by simp
qed

lemma read_status_write_size_other:
  assumes "unat q + 8 \<le> unat p + 8 \<or> unat p + 9 \<le> unat q" "unat p + 9 \<le> 2 ^ 64" "unat q + 8 \<le> 2 ^ 64"
  shows "read_status (write_size m q v) p = read_status m p"
proof -
  have "unchanged m (write_size m (of_nat (unat q)) v) (unat p + 8) (unat p + 9)"
    using assms by (intro unchanged_write_size) auto
  then have "read_status (write_size m (of_nat (unat q)) v) (of_nat (unat p)) = read_status m (of_nat (unat p))"
    by (rule unchanged_read_status)
  then show ?thesis by simp
qed

lemma read_status_write_status_other:
  assumes "p \<noteq> q"
  shows "read_status (write_status m q c) p = read_status m p"
  using assms by (simp add: read_status_def write_status_def)

lemma read_zero [simp]: "read_size (\<lambda>_. 0) p = 0" "read_status (\<lambda>_. 0) p = 0"
  by (simp_all add: read_size_def read_status_def)

lemmas read_other = read_size_write_size_other read_size_write_status_other
  read_status_write_size_other read_status_write_status_other

section \<open>The break primitive\<close>

lemma uint_add_scast:
  "uint ((a :: addr) + scast (s :: c_int)) = (uint a + sint s) mod 2 ^ 64"
proof -
  have "a + scast s = word_of_int (uint a) + word_of_int (sint s)"
    by (simp only: scast_eq word_of_int_uint)
  also have "\<dots> = word_of_int (uint a + sint s)"
    by (simp only: of_int_add)
  finally show ?thesis
    by (simp only: uint_word_of_int take_bit_eq_mod len_of_numeral_defs) simp
qed

lemma sint_c_int_bounds: "- (2 ^ 31) \<le> sint (s :: c_int)" "sint (s :: c_int) < 2 ^ 31"
  using sint_ge [of s] sint_lt [of s] by simp_all

lemma uint_break_offset:
  assumes "0 \<le> uint (heap_current_break h) + sint (sz :: c_int)"
    "uint (heap_current_break h) + sint sz < 2 ^ 64"
  shows "uint (heap_current_break h + scast sz) = uint (heap_current_break h) + sint sz"
  using assms by (simp add: uint_add_scast)

lemma sint_eq_0_iff: "(sint (sz :: c_int) = 0) = (sz = 0)"
  by (metis sint_0 signed_word_eqI)

lemma mm_sbrk_pos:
  assumes "initialized h" "0 < sint sz"
    and nw: "uint (heap_current_break h + scast sz) = uint (heap_current_break h) + sint sz"
  shows "mm_sbrk sz h =
    (if uint (heap_current_break h) + sint sz \<le> uint (heap_end h)
     then (heap_current_break h, h\<lparr>heap_current_break := heap_current_break h + scast sz\<rparr>)
     else (MAP_FAILED, h))"
proof -
  have "sz \<noteq> 0" "0 <s sz" "\<not> sz <s 0"
    using assms(2) by (auto simp add: word_sless_alt)
  moreover have "(heap_current_break h + scast sz \<le> heap_end h)
      = (uint (heap_current_break h) + sint sz \<le> uint (heap_end h))"
    by (simp add: word_le_def nw)
  ultimately show ?thesis
    using assms(1) by (simp add: initialized_def mm_sbrk_def)
qed

lemma mm_sbrk_neg:
  assumes "initialized h" "sint sz < 0"
    and nw: "uint (heap_current_break h + scast sz) = uint (heap_current_break h) + sint sz"
  shows "mm_sbrk sz h =
    (if uint (heap_start h) \<le> uint (heap_current_break h) + sint sz
     then (heap_current_break h, h\<lparr>heap_current_break := heap_current_break h + scast sz\<rparr>)
     else (MAP_FAILED, h))"
proof -
  have "sz \<noteq> 0" "\<not> 0 <s sz" "sz <s 0"
    using assms(2) by (auto simp add: word_sless_alt)
  moreover have "(heap_start h \<le> heap_current_break h + scast sz)
      = (uint (heap_start h) \<le> uint (heap_current_break h) + sint sz)"
    by (simp add: word_le_def nw)
  ultimately show ?thesis
    using assms(1) by (simp add: initialized_def mm_sbrk_def)
qed

text \<open>
  C8. \<^verbatim>\<open>mm_sbrk\<close> keeps its whole contract. Before the arena is set up it fails: it
  returns \<^verbatim>\<open>MAP_FAILED\<close> and changes nothing. With \<open>sz = 0\<close> it returns the break and
  changes nothing. With \<open>sz > 0\<close> it moves the break up by \<open>sz\<close> and returns the old break
  when the new break is at most \<^verbatim>\<open>heap_end\<close>, and otherwise fails and changes nothing.
  With \<open>sz < 0\<close> it moves the break down by \<open>|sz|\<close> and returns the old break when the
  new break is at least \<^verbatim>\<open>heap_start\<close>, and otherwise fails and changes nothing. The
  program has one failure value for the three kinds of failure. The sums \<open>break + sz\<close>
  are those of the integers. Where the call succeeds the pointer addition of the program
  gives that sum; the two refusals are stated for a sum that is an address, since pointer
  arithmetic that leaves the address space is undefined in C and wraps on the machine.
\<close>

theorem mm_sbrk_contract:
  "(\<not> initialized h \<longrightarrow> mm_sbrk sz h = (MAP_FAILED, h))
   \<and> (initialized h \<longrightarrow> mm_sbrk 0 h = (heap_current_break h, h))
   \<and> (initialized h \<and> 0 < sint sz
        \<and> uint (heap_current_break h) + sint sz \<le> uint (heap_end h)
      \<longrightarrow> mm_sbrk sz h
            = (heap_current_break h, h\<lparr>heap_current_break := heap_current_break h + scast sz\<rparr>)
          \<and> uint (heap_current_break h + scast sz) = uint (heap_current_break h) + sint sz)
   \<and> (initialized h \<and> 0 < sint sz
        \<and> uint (heap_end h) < uint (heap_current_break h) + sint sz
        \<and> uint (heap_current_break h) + sint sz < 2 ^ 64
      \<longrightarrow> mm_sbrk sz h = (MAP_FAILED, h))
   \<and> (initialized h \<and> sint sz < 0
        \<and> uint (heap_start h) \<le> uint (heap_current_break h) + sint sz
      \<longrightarrow> mm_sbrk sz h
            = (heap_current_break h, h\<lparr>heap_current_break := heap_current_break h + scast sz\<rparr>)
          \<and> uint (heap_current_break h + scast sz) = uint (heap_current_break h) - \<bar>sint sz\<bar>)
   \<and> (initialized h \<and> sint sz < 0
        \<and> uint (heap_current_break h) + sint sz < uint (heap_start h)
        \<and> 0 \<le> uint (heap_current_break h) + sint sz
      \<longrightarrow> mm_sbrk sz h = (MAP_FAILED, h))"
proof (intro conjI impI)
  assume "\<not> initialized h"
  then show "mm_sbrk sz h = (MAP_FAILED, h)"
    by (auto simp add: initialized_def mm_sbrk_def)
next
  assume "initialized h"
  then show "mm_sbrk 0 h = (heap_current_break h, h)"
    by (simp add: initialized_def mm_sbrk_def)
next
  assume a: "initialized h \<and> 0 < sint sz
        \<and> uint (heap_current_break h) + sint sz \<le> uint (heap_end h)"
  have "uint (heap_end h) < 2 ^ 64"
    using uint_lt2p [of "heap_end h"] by simp
  then have nw: "uint (heap_current_break h + scast sz) = uint (heap_current_break h) + sint sz"
    using a by (intro uint_break_offset) simp_all
  show "mm_sbrk sz h
      = (heap_current_break h, h\<lparr>heap_current_break := heap_current_break h + scast sz\<rparr>)"
    using a by (simp add: mm_sbrk_pos [OF _ _ nw])
  show "uint (heap_current_break h + scast sz) = uint (heap_current_break h) + sint sz"
    by (rule nw)
next
  assume a: "initialized h \<and> 0 < sint sz
        \<and> uint (heap_end h) < uint (heap_current_break h) + sint sz
        \<and> uint (heap_current_break h) + sint sz < 2 ^ 64"
  then have nw: "uint (heap_current_break h + scast sz) = uint (heap_current_break h) + sint sz"
    by (intro uint_break_offset) simp_all
  show "mm_sbrk sz h = (MAP_FAILED, h)"
    using a by (simp add: mm_sbrk_pos [OF _ _ nw])
next
  assume a: "initialized h \<and> sint sz < 0
        \<and> uint (heap_start h) \<le> uint (heap_current_break h) + sint sz"
  have "uint (heap_current_break h) < 2 ^ 64" "0 \<le> uint (heap_start h)"
    using uint_lt2p [of "heap_current_break h"] by simp_all
  then have nw: "uint (heap_current_break h + scast sz) = uint (heap_current_break h) + sint sz"
    using a by (intro uint_break_offset) arith+
  show "mm_sbrk sz h
      = (heap_current_break h, h\<lparr>heap_current_break := heap_current_break h + scast sz\<rparr>)"
    using a by (simp add: mm_sbrk_neg [OF _ _ nw])
  show "uint (heap_current_break h + scast sz) = uint (heap_current_break h) - \<bar>sint sz\<bar>"
    using a nw by simp
next
  assume a: "initialized h \<and> sint sz < 0
        \<and> uint (heap_current_break h) + sint sz < uint (heap_start h)
        \<and> 0 \<le> uint (heap_current_break h) + sint sz"
  have "uint (heap_current_break h) < 2 ^ 64"
    using uint_lt2p [of "heap_current_break h"] by simp
  then have nw: "uint (heap_current_break h + scast sz) = uint (heap_current_break h) + sint sz"
    using a by (intro uint_break_offset) simp_all
  show "mm_sbrk sz h = (MAP_FAILED, h)"
    using a by (simp add: mm_sbrk_neg [OF _ _ nw])
qed

theorem mm_sbrk_contract_witness:
  "initialized sbrk_heap
   \<and> \<not> initialized (sbrk_heap\<lparr>heap_start := NULL\<rparr>)
   \<and> mm_sbrk 0 sbrk_heap = (4294967396, sbrk_heap)
   \<and> mm_sbrk 50 sbrk_heap = (4294967396, sbrk_heap\<lparr>heap_current_break := 4294967446\<rparr>)
   \<and> mm_sbrk 7901 sbrk_heap = (MAP_FAILED, sbrk_heap)
   \<and> mm_sbrk (- 100) sbrk_heap = (4294967396, sbrk_heap\<lparr>heap_current_break := 4294967296\<rparr>)
   \<and> mm_sbrk (- 101) sbrk_heap = (MAP_FAILED, sbrk_heap)
   \<and> mm_sbrk 50 (sbrk_heap\<lparr>heap_start := NULL\<rparr>)
       = (MAP_FAILED, sbrk_heap\<lparr>heap_start := NULL\<rparr>)"
  using mm_sbrk_contract [of sbrk_heap 0] mm_sbrk_contract [of sbrk_heap 50]
    mm_sbrk_contract [of sbrk_heap 7901] mm_sbrk_contract [of sbrk_heap "- 100"]
    mm_sbrk_contract [of sbrk_heap "- 101"]
    mm_sbrk_contract [of "sbrk_heap\<lparr>heap_start := NULL\<rparr>" 50]
  by (simp add: initialized_def sbrk_heap_def NULL_def)

section \<open>\<^verbatim>\<open>mm_free\<close>\<close>

lemma two_blocks_ok:
  "arena_ok two_blocks"
  "heap_blocks two_blocks
     [\<lparr>md_size = 10, md_status = META_DATA_STATUS_OCCUPIED\<rparr>,
      \<lparr>md_size = 5, md_status = META_DATA_STATUS_OCCUPIED\<rparr>]"
  by (simp_all add: arena_ok_def heap_blocks_def two_blocks_def with_header_def HEAP_SIZE_def
      NULL_def META_DATA_STATUS_OCCUPIED_def read_other)

lemma mm_free_blocks:
  assumes "heap_blocks h (pre @ md # post)"
    and "p = of_nat (block_end (unat (heap_start h)) pre) + meta_data_size"
  shows "heap_blocks (mm_free p h) (pre @ md\<lparr>md_status := META_DATA_STATUS_FREE\<rparr> # post)"
    and "md_status md = META_DATA_STATUS_FREE \<Longrightarrow> mm_free p h = h"
proof -
  define a where "a = block_end (unat (heap_start h)) pre"
  define b where "b = unat (heap_current_break h)"
  define m where "m = bytes h"
  define m' where "m' = write_status m (of_nat a) META_DATA_STATUS_FREE"
  have b: "b < 2 ^ 64"
    unfolding b_def by (rule unat_addr_less)
  have c1: "chain m (unat (heap_start h)) pre a" and c2: "chain m a (md # post) b"
    using assms(1) by (simp_all add: heap_blocks_def chain_append a_def b_def m_def)
  have le: "a + 9 + unat (md_size md) \<le> b"
    using c2 by (rule chain_Cons_less)
  have p: "p - meta_data_size = of_nat a"
    by (simp add: assms(2) a_def)
  have free: "mm_free p h = h\<lparr>bytes := m'\<rparr>"
    by (simp add: mm_free_def p m'_def m_def)
  have "unchanged m m' (unat (heap_start h)) a"
    unfolding m'_def using le b by (intro unchanged_write_status) simp_all
  with c1 have c1': "chain m' (unat (heap_start h)) pre a"
    by (rule chain_unchanged)
  have "unchanged m m' (a + 9 + unat (md_size md)) b"
    unfolding m'_def using le b by (intro unchanged_write_status) simp_all
  moreover have "chain m (a + 9 + unat (md_size md)) post b"
    using c2 by simp
  ultimately have "chain m' (a + 9 + unat (md_size md)) post b"
    by (rule chain_unchanged [rotated])
  then have c2': "chain m' a (md\<lparr>md_status := META_DATA_STATUS_FREE\<rparr> # post) b"
    using c2 by (simp add: m'_def)
  show "heap_blocks (mm_free p h) (pre @ md\<lparr>md_status := META_DATA_STATUS_FREE\<rparr> # post)"
    using c1' c2' by (simp add: free heap_blocks_def chain_append a_def b_def)
  show "mm_free p h = h" if "md_status md = META_DATA_STATUS_FREE"
  proof -
    have "m (of_nat a + 8) = META_DATA_STATUS_FREE"
      using c2 that by (simp add: read_status_def)
    then have "m' = m"
      by (simp add: m'_def write_status_def fun_upd_idem)
    then show ?thesis
      by (simp add: free m_def)
  qed
qed

text \<open>
  C9. For the payload address \<open>p\<close> of a block of the list, \<^verbatim>\<open>mm_free\<close> writes one byte,
  the status of the header at \<open>p - 9\<close>. The three pointers stay, every block keeps its
  size, every other block keeps its status, and the list has the same blocks at the same
  places. Freeing a block that is free already changes nothing at all, and freeing twice
  is the same as freeing once.
\<close>

theorem mm_free_sets_status_only:
  assumes "heap_blocks h (pre @ md # post)"
    and "p = of_nat (block_end (unat (heap_start h)) pre) + meta_data_size"
  shows "heap_start (mm_free p h) = heap_start h \<and> heap_end (mm_free p h) = heap_end h
    \<and> heap_current_break (mm_free p h) = heap_current_break h
    \<and> bytes (mm_free p h) = (bytes h)(p - 1 := META_DATA_STATUS_FREE)
    \<and> heap_blocks (mm_free p h) (pre @ md\<lparr>md_status := META_DATA_STATUS_FREE\<rparr> # post)
    \<and> (md_status md = META_DATA_STATUS_FREE \<longrightarrow> mm_free p h = h)
    \<and> mm_free p (mm_free p h) = mm_free p h"
proof -
  have "bytes (mm_free p h) = (bytes h)(p - 1 := META_DATA_STATUS_FREE)"
    by (simp add: mm_free_def write_status_def meta_data_size_def)
  moreover have "mm_free p (mm_free p h) = mm_free p h"
    by (simp add: mm_free_def write_status_def)
  ultimately show ?thesis
    using mm_free_blocks [OF assms] by (simp add: mm_free_def)
qed

theorem mm_free_sets_status_only_witness:
  "heap_blocks two_blocks
     ([\<lparr>md_size = 10, md_status = META_DATA_STATUS_OCCUPIED\<rparr>]
      @ \<lparr>md_size = 5, md_status = META_DATA_STATUS_OCCUPIED\<rparr> # [])
   \<and> heap_current_break (mm_free 4124 two_blocks) = 4129
   \<and> bytes (mm_free 4124 two_blocks) = (bytes two_blocks)(4123 := META_DATA_STATUS_FREE)
   \<and> heap_blocks (mm_free 4124 two_blocks)
       [\<lparr>md_size = 10, md_status = META_DATA_STATUS_OCCUPIED\<rparr>,
        \<lparr>md_size = 5, md_status = META_DATA_STATUS_FREE\<rparr>]
   \<and> mm_free 4124 (mm_free 4124 two_blocks) = mm_free 4124 two_blocks"
  using two_blocks_ok(2)
    mm_free_sets_status_only [of two_blocks
      "[\<lparr>md_size = 10, md_status = META_DATA_STATUS_OCCUPIED\<rparr>]"
      "\<lparr>md_size = 5, md_status = META_DATA_STATUS_OCCUPIED\<rparr>" "[]" 4124]
  by (simp add: two_blocks_def meta_data_size_def)

section \<open>\<^verbatim>\<open>mm_malloc\<close>: the search loop\<close>

lemma arena_ok_break_less: "unat (heap_current_break h) < 2 ^ 64"
  by (rule unat_addr_less)

lemma ucast_small:
  assumes "unat (d :: size_t) < 2 ^ 31"
  shows "sint (ucast d :: c_int) = int (unat d)" "(scast (ucast d :: c_int) :: addr) = d"
proof -
  have "int (unat d) < int (2 ^ 31)"
    using assms by (simp only: of_nat_less_iff)
  then have d: "uint d < 2 ^ 31"
    by simp
  then have "uint (ucast d :: c_int) = uint d"
    by (simp add: unsigned_ucast_eq take_bit_int_eq_self)
  moreover have "sint (ucast d :: c_int) = signed_take_bit 31 (uint (ucast d :: c_int))"
    by (simp add: sint_uint)
  moreover have "signed_take_bit 31 (uint d) = uint d"
    using d uint_ge_0 [of d] by (intro signed_take_bit_int_eq_self) linarith+
  ultimately show s: "sint (ucast d :: c_int) = int (unat d)"
    by simp
  have "(scast (ucast d :: c_int) :: addr) = of_int (sint (ucast d :: c_int))"
    by (rule scast_eq)
  also have "\<dots> = of_int (int (unat d))"
    by (simp only: s)
  also have "\<dots> = d"
    by simp
  finally show "(scast (ucast d :: c_int) :: addr) = d" .
qed

lemma unat_plus_9:
  assumes "unat (sz :: size_t) + 9 < 2 ^ 64"
  shows "unat (sz + meta_data_size) = unat sz + 9"
  using assms by (simp add: meta_data_size_def unat_add_lem [THEN iffD1])

lemma mm_malloc_loop_skip:
  assumes "chain m a pre c" "c \<le> unat brk" "\<forall>md\<in>set pre. \<not> fits sz md"
  shows "mm_malloc_loop sz brk (of_nat a) lst m
    = mm_malloc_loop sz brk (of_nat c)
        (if pre = [] then lst else of_nat (block_end a (butlast pre))) m"
  using assms
proof (induction pre arbitrary: a lst)
  case Nil
  then show ?case by simp
next
  case (Cons md mds)
  define a' where "a' = a + 9 + unat (md_size md)"
  have c: "chain m a' mds c" and rs: "read_size m (of_nat a) = md_size md"
    and rt: "read_status m (of_nat a) = md_status md"
    using Cons.prems(1) by (simp_all add: a'_def)
  have "a' \<le> c"
    using c by (rule chain_le)
  then have "a < unat brk" "a < 2 ^ 64"
    using Cons.prems(2) unat_addr_less [of brk] by (simp_all add: a'_def)
  then have lt: "(of_nat a :: addr) < brk"
    by (simp add: of_nat_less_addr)
  have nf: "\<not> (read_status m (of_nat a) = META_DATA_STATUS_FREE \<and> sz \<le> read_size m (of_nat a))"
    using Cons.prems(3) by (simp add: fits_def rs rt)
  have "mm_malloc_loop sz brk (of_nat a) lst m = mm_malloc_loop sz brk (of_nat a') (of_nat a) m"
    using lt nf by (subst mm_malloc_loop.simps) (auto simp add: advance_of_nat rs a'_def)
  also have "\<dots> = mm_malloc_loop sz brk (of_nat c)
      (if mds = [] then of_nat a else of_nat (block_end a' (butlast mds))) m"
    using c Cons.prems by (intro Cons.IH) simp_all
  finally show ?case
    by (simp add: a'_def)
qed

lemma mm_malloc_loop_end:
  "mm_malloc_loop sz brk brk lst m = Some (Inr lst)"
  by (subst mm_malloc_loop.simps) simp

lemma mm_malloc_loop_fit:
  assumes "chain m a (md # post) (unat brk)" "fits sz md"
  shows "mm_malloc_loop sz brk (of_nat a) lst m
    = Some (Inl (of_nat a + meta_data_size, take_block m (of_nat a) sz))"
proof -
  have "a + 9 + unat (md_size md) \<le> unat brk"
    using assms(1) by (rule chain_Cons_less)
  then have "a < unat brk" "a < 2 ^ 64"
    using unat_addr_less [of brk] by simp_all
  then have lt: "(of_nat a :: addr) < brk"
    by (simp add: of_nat_less_addr)
  show ?thesis
    using lt assms by (subst mm_malloc_loop.simps) (simp add: fits_def)
qed

lemma take_block_chain:
  assumes c: "chain m a (md # post) b" and b: "b < 2 ^ 64" and f: "fits sz md"
  shows "chain (take_block m (of_nat a) sz) a (carve sz md @ post) b"
    and "unchanged m (take_block m (of_nat a) sz) lo a"
proof -
  define S where "S = md_size md"
  have le: "a + 9 + unat S \<le> b" and rs: "read_size m (of_nat a) = S"
    and post: "chain m (a + 9 + unat S) post b"
    using c chain_Cons_less [OF c] by (simp_all add: S_def)
  have n: "unat sz \<le> unat S"
    using f by (simp add: fits_def S_def word_le_nat_alt)
  then have n9: "unat (sz + meta_data_size) = unat sz + 9"
    using le b by (intro unat_plus_9) simp
  have split: "(enoughToSplit m (of_nat a) sz = 1) = (unat sz + 9 < unat S)"
    by (simp add: enoughToSplit_def rs word_less_nat_alt n9)
  show "chain (take_block m (of_nat a) sz) a (carve sz md @ post) b"
  proof (cases "unat sz + 9 < unat S")
    case False
    have tb: "take_block m (of_nat a) sz = write_status m (of_nat a) META_DATA_STATUS_OCCUPIED"
      using False by (simp add: take_block_def split)
    have "unchanged m (take_block m (of_nat a) sz) (a + 9 + unat S) b"
      unfolding tb using le b by (intro unchanged_write_status) simp_all
    with post have "chain (take_block m (of_nat a) sz) (a + 9 + unat S) post b"
      by (rule chain_unchanged)
    then show ?thesis
      using False rs by (simp add: carve_def S_def [symmetric]) (simp add: tb S_def)
  next
    case True
    define new where "new = a + 9 + unat sz"
    define v where "v = S - sz - meta_data_size"
    define M2 where "M2 = write_status (write_size m (of_nat new) v) (of_nat new) META_DATA_STATUS_FREE"
    have tb: "take_block m (of_nat a) sz
        = write_status (write_size M2 (of_nat a) sz) (of_nat a) META_DATA_STATUS_OCCUPIED"
      using True by (simp add: take_block_def split M2_def new_def v_def rs meta_data_size_def)
    have "sz + meta_data_size \<le> S"
      using True by (simp add: word_le_nat_alt n9)
    then have "unat (S - (sz + meta_data_size)) = unat S - (unat sz + 9)"
      by (simp add: unat_sub n9)
    then have v: "unat v = unat S - unat sz - 9"
      by (simp add: v_def diff_diff_eq)
    have e: "new + 9 + unat v = a + 9 + unat S"
      using True by (simp add: new_def v)
    have u24: "unchanged M2 (take_block m (of_nat a) sz) (a + 9) (2 ^ 64)"
      unfolding tb using le b
      by (intro unchanged_trans [OF unchanged_write_size unchanged_write_status]) simp_all
    have u02: "unchanged m M2 (new + 9) b"
      unfolding M2_def using le b True
      by (intro unchanged_trans [OF unchanged_write_size unchanged_write_status])
        (simp_all add: new_def)
    have "unchanged m (take_block m (of_nat a) sz) (a + 9 + unat S) b"
      using le b e
      by (intro unchanged_trans [OF unchanged_mono [OF u02] unchanged_mono [OF u24]]) simp_all
    with post have p': "chain (take_block m (of_nat a) sz) (a + 9 + unat S) post b"
      by (rule chain_unchanged)
    have "read_size (take_block m (of_nat a) sz) (of_nat new) = read_size M2 (of_nat new)"
      using b le True
      by (intro unchanged_read_size unchanged_mono [OF u24]) (simp_all add: new_def)
    then have r1: "read_size (take_block m (of_nat a) sz) (of_nat new) = v"
      by (simp add: M2_def)
    have "read_status (take_block m (of_nat a) sz) (of_nat new) = read_status M2 (of_nat new)"
      using b le True
      by (intro unchanged_read_status unchanged_mono [OF u24]) (simp_all add: new_def)
    then have r2: "read_status (take_block m (of_nat a) sz) (of_nat new) = META_DATA_STATUS_FREE"
      by (simp add: M2_def)
    have r3: "read_size (take_block m (of_nat a) sz) (of_nat a) = sz"
      "read_status (take_block m (of_nat a) sz) (of_nat a) = META_DATA_STATUS_OCCUPIED"
      by (simp_all add: tb)
    have "carve sz md = [\<lparr>md_size = sz, md_status = META_DATA_STATUS_OCCUPIED\<rparr>,
            \<lparr>md_size = v, md_status = META_DATA_STATUS_FREE\<rparr>]"
      using True by (simp add: carve_def S_def v_def meta_data_size_def)
    moreover have "chain (take_block m (of_nat a) sz) new
        (\<lparr>md_size = v, md_status = META_DATA_STATUS_FREE\<rparr> # post) b"
    proof -
      from p' have "chain (take_block m (of_nat a) sz) (new + 9 + unat v) post b"
        by (simp only: e)
      then show ?thesis
        using r1 r2 by simp
    qed
    then have "chain (take_block m (of_nat a) sz) a
        (\<lparr>md_size = sz, md_status = META_DATA_STATUS_OCCUPIED\<rparr>
         # \<lparr>md_size = v, md_status = META_DATA_STATUS_FREE\<rparr> # post) b"
      using r3 by (simp add: new_def [symmetric])
    ultimately show ?thesis
      by simp
  qed
  show "unchanged m (take_block m (of_nat a) sz) lo a"
  proof (cases "unat sz + 9 < unat S")
    case False
    have tb: "take_block m (of_nat a) sz = write_status m (of_nat a) META_DATA_STATUS_OCCUPIED"
      using False by (simp add: take_block_def split)
    show ?thesis
      unfolding tb using le b by (intro unchanged_write_status) simp_all
  next
    case True
    have eq: "(of_nat a :: addr) + meta_data_size + sz = of_nat (a + 9 + unat sz)"
      by (simp add: meta_data_size_def)
    have tb: "take_block m (of_nat a) sz
        = write_status (write_size (write_status (write_size m (of_nat (a + 9 + unat sz))
            (read_size m (of_nat a) - sz - meta_data_size)) (of_nat (a + 9 + unat sz))
            META_DATA_STATUS_FREE) (of_nat a) sz) (of_nat a) META_DATA_STATUS_OCCUPIED"
      using True by (simp only: take_block_def split eq if_True)
    show ?thesis
      unfolding tb using le b True
      by (intro unchanged_trans [OF unchanged_trans [OF unchanged_trans
              [OF unchanged_write_size unchanged_write_status] unchanged_write_size]
            unchanged_write_status]) simp_all
  qed
qed

lemma arena_ok_imp_initialized: "arena_ok h \<Longrightarrow> initialized h"
  by (simp add: initialized_def arena_ok_initialized)

lemma mm_sbrk_small:
  assumes "initialized h" "0 < unat (d :: size_t)" "unat d < 2 ^ 31"
    and nw: "unat (heap_current_break h) + unat d < 2 ^ 64"
  shows "mm_sbrk (ucast d) h =
    (if unat (heap_current_break h) + unat d \<le> unat (heap_end h)
     then (heap_current_break h, h\<lparr>heap_current_break := heap_current_break h + d\<rparr>)
     else (MAP_FAILED, h))"
proof -
  have s: "sint (ucast d :: c_int) = int (unat d)" and c: "(scast (ucast d :: c_int) :: addr) = d"
    using assms(3) by (rule ucast_small)+
  have "unat (heap_current_break h + d) = unat (heap_current_break h) + unat d"
    using nw by (simp add: unat_add_lem [THEN iffD1])
  then have "int (unat (heap_current_break h + d))
      = int (unat (heap_current_break h)) + int (unat d)"
    by (simp only: of_nat_add)
  then have u: "uint (heap_current_break h + scast (ucast d :: c_int))
      = uint (heap_current_break h) + sint (ucast d :: c_int)"
    by (simp only: s c) simp
  have "(uint (heap_current_break h) + sint (ucast d :: c_int) \<le> uint (heap_end h))
      = (int (unat (heap_current_break h) + unat d) \<le> int (unat (heap_end h)))"
    by (simp only: s) simp
  also have "\<dots> = (unat (heap_current_break h) + unat d \<le> unat (heap_end h))"
    by (simp only: of_nat_le_iff)
  finally have t: "(uint (heap_current_break h) + sint (ucast d :: c_int) \<le> uint (heap_end h))
      = (unat (heap_current_break h) + unat d \<le> unat (heap_end h))" .
  have "0 < sint (ucast d :: c_int)"
    using assms(2) by (simp only: s of_nat_0_less_iff)
  from mm_sbrk_pos [OF assms(1) this u] show ?thesis
    by (simp only: t c)
qed

lemma heap_blocks_last:
  assumes "arena_ok h" "heap_blocks h bs" "bs \<noteq> []"
  defines "a \<equiv> block_end (unat (heap_start h)) (butlast bs)"
  shows "read_size (bytes h) (of_nat a) = md_size (last bs)"
    and "read_status (bytes h) (of_nat a) = md_status (last bs)"
    and "a + 9 + unat (md_size (last bs)) = unat (heap_current_break h)"
    and "(of_nat a :: addr) \<noteq> NULL"
    and "chain (bytes h) (unat (heap_start h)) (butlast bs) a"
proof -
  have "heap_blocks h (butlast bs @ [last bs])"
    using assms(2,3) by simp
  then have c: "chain (bytes h) (unat (heap_start h)) (butlast bs) a"
    "chain (bytes h) a [last bs] (unat (heap_current_break h))"
    unfolding heap_blocks_def chain_append a_def by simp_all
  then show "read_size (bytes h) (of_nat a) = md_size (last bs)"
    and "read_status (bytes h) (of_nat a) = md_status (last bs)"
    and e: "a + 9 + unat (md_size (last bs)) = unat (heap_current_break h)"
    and "chain (bytes h) (unat (heap_start h)) (butlast bs) a"
    by simp_all
  have "0 < a"
    using chain_le [OF c(1)] arena_ok_unat(4) [OF assms(1)] by simp
  moreover have "a < 2 ^ 64"
    using e unat_addr_less [of "heap_current_break h"] by simp
  ultimately have "unat (of_nat a :: addr) \<noteq> 0"
    by (simp add: unat_of_nat_addr)
  then show "(of_nat a :: addr) \<noteq> NULL"
    by (auto simp add: NULL_def)
qed

lemma mm_malloc_fit:
  assumes "arena_ok h" "heap_blocks h (pre @ md # post)" "\<forall>x\<in>set pre. \<not> fits sz x"
    "fits sz md"
  defines "a \<equiv> block_end (unat (heap_start h)) pre"
  shows "mm_malloc sz h
      = Some (Inr (of_nat a + meta_data_size, h\<lparr>bytes := take_block (bytes h) (of_nat a) sz\<rparr>))"
    and "heap_blocks (h\<lparr>bytes := take_block (bytes h) (of_nat a) sz\<rparr>)
           (pre @ carve sz md @ post)"
proof -
  define b where "b = unat (heap_current_break h)"
  have c1: "chain (bytes h) (unat (heap_start h)) pre a"
    and c2: "chain (bytes h) a (md # post) b"
    using assms(2) unfolding heap_blocks_def chain_append a_def b_def by simp_all
  have ab: "a \<le> b"
    using c2 by (rule chain_le)
  have b: "b < 2 ^ 64"
    unfolding b_def by (rule unat_addr_less)
  have "mm_malloc_loop sz (heap_current_break h) (of_nat (unat (heap_start h))) NULL (bytes h)
      = mm_malloc_loop sz (heap_current_break h) (of_nat a)
          (if pre = [] then NULL else of_nat (block_end (unat (heap_start h)) (butlast pre)))
          (bytes h)"
    using c1 ab assms(3) by (intro mm_malloc_loop_skip) (simp_all add: b_def)
  also have "\<dots> = Some (Inl (of_nat a + meta_data_size, take_block (bytes h) (of_nat a) sz))"
    by (rule mm_malloc_loop_fit [OF c2 [unfolded b_def] assms(4)])
  finally show "mm_malloc sz h
      = Some (Inr (of_nat a + meta_data_size, h\<lparr>bytes := take_block (bytes h) (of_nat a) sz\<rparr>))"
    using assms(1) by (simp add: mm_malloc_def)
  have "chain (take_block (bytes h) (of_nat a) sz) a (carve sz md @ post) b"
    using c2 b assms(4) by (rule take_block_chain(1))
  moreover have "chain (take_block (bytes h) (of_nat a) sz) (unat (heap_start h)) pre a"
    using c1 take_block_chain(2) [OF c2 b assms(4)] by (rule chain_unchanged)
  moreover have "block_end (unat (heap_start h)) pre = a"
    by (simp add: a_def)
  ultimately show "heap_blocks (h\<lparr>bytes := take_block (bytes h) (of_nat a) sz\<rparr>)
           (pre @ carve sz md @ post)"
    by (simp add: heap_blocks_def chain_append b_def)
qed

lemma mm_malloc_nofit:
  assumes "arena_ok h" "heap_blocks h bs" "\<forall>x\<in>set bs. \<not> fits sz x"
  shows "mm_malloc sz h
      = Some (mm_malloc_grow sz
          (if bs = [] then NULL else of_nat (block_end (unat (heap_start h)) (butlast bs))) h)"
proof -
  have "mm_malloc_loop sz (heap_current_break h) (of_nat (unat (heap_start h))) NULL (bytes h)
      = mm_malloc_loop sz (heap_current_break h) (of_nat (unat (heap_current_break h)))
          (if bs = [] then NULL else of_nat (block_end (unat (heap_start h)) (butlast bs)))
          (bytes h)"
    using assms(2,3) by (intro mm_malloc_loop_skip) (simp_all add: heap_blocks_def)
  then show ?thesis
    using assms(1) by (simp add: mm_malloc_def mm_malloc_loop_end)
qed

lemma mm_malloc_loop_nofit:
  assumes "arena_ok h" "heap_blocks h bs" "\<forall>x\<in>set bs. \<not> fits sz x"
  shows "mm_malloc_loop sz (fst (mm_sbrk 0 h)) (heap_start h) NULL (bytes h)
    = Some (Inr (if bs = [] then NULL
                 else of_nat (block_end (unat (heap_start h)) (butlast bs))))"
proof -
  have "mm_malloc_loop sz (heap_current_break h) (of_nat (unat (heap_start h))) NULL (bytes h)
      = mm_malloc_loop sz (heap_current_break h) (of_nat (unat (heap_current_break h)))
          (if bs = [] then NULL else of_nat (block_end (unat (heap_start h)) (butlast bs)))
          (bytes h)"
    using assms(2,3) by (intro mm_malloc_loop_skip) (simp_all add: heap_blocks_def)
  then show ?thesis
    using assms(1) by (simp add: mm_malloc_loop_end)
qed

section \<open>\<^verbatim>\<open>mm_malloc\<close>: growing the arena\<close>

lemma unchanged_write_size_word:
  assumes "hi \<le> unat p \<or> unat p + 8 \<le> lo" "hi \<le> 2 ^ 64" "unat p + 8 \<le> 2 ^ 64"
  shows "unchanged m (write_size m p v) lo hi"
  using unchanged_write_size [OF assms, of m v] by simp

lemma unchanged_write_status_word:
  assumes "hi \<le> unat p + 8 \<or> unat p + 9 \<le> lo" "hi \<le> 2 ^ 64" "unat p + 9 \<le> 2 ^ 64"
  shows "unchanged m (write_status m p c) lo hi"
  using unchanged_write_status [OF assms, of m c] by simp

lemma last_block_test:
  assumes "arena_ok h" "heap_blocks h bs"
  defines "lastBlock \<equiv>
    (if bs = [] then NULL else of_nat (block_end (unat (heap_start h)) (butlast bs)))"
  shows "(lastBlock = NULL \<or> read_status (bytes h) lastBlock = META_DATA_STATUS_OCCUPIED)
    = (bs = [] \<or> md_status (last bs) = META_DATA_STATUS_OCCUPIED)"
  using heap_blocks_last(2,4) [OF assms(1,2)] by (auto simp add: lastBlock_def)

lemma unat_MAP_FAILED: "unat MAP_FAILED = 18446744073709551615"
  by (simp add: MAP_FAILED_def unsigned_minus_1_eq_mask mask_eq_exp_minus_1)

lemma grow_new_block:
  assumes ok: "arena_ok h" and hb: "heap_blocks h bs"
    and occ: "bs = [] \<or> md_status (last bs) = META_DATA_STATUS_OCCUPIED"
    and fit: "unat (heap_current_break h) + (unat sz + 9) \<le> unat (heap_end h)"
  defines "lastBlock \<equiv>
    (if bs = [] then NULL else of_nat (block_end (unat (heap_start h)) (butlast bs)))"
  defines "h' \<equiv> h\<lparr>heap_current_break := heap_current_break h + (sz + meta_data_size),
    bytes := write_status (write_size (bytes h) (heap_current_break h) sz)
               (heap_current_break h) META_DATA_STATUS_OCCUPIED\<rparr>"
  shows "mm_malloc_grow sz lastBlock h = Inr (heap_current_break h + meta_data_size, h')"
    and "arena_ok h'"
    and "heap_blocks h' (bs @ [\<lparr>md_size = sz, md_status = META_DATA_STATUS_OCCUPIED\<rparr>])"
    and "unat (heap_current_break h') = unat (heap_current_break h) + (unat sz + 9)"
proof -
  define b where "b = unat (heap_current_break h)"
  note un = arena_ok_unat [OF ok]
  have e: "unat (heap_end h) < 2 ^ 64"
    by (rule unat_addr_less)
  have d: "unat (sz + meta_data_size) = unat sz + 9"
    using fit e by (intro unat_plus_9) simp
  have small: "0 < unat (sz + meta_data_size)" "unat (sz + meta_data_size) < 2 ^ 31"
    using fit un by (simp_all add: d)
  have "mm_sbrk (ucast (sz + meta_data_size)) h
      = (heap_current_break h,
         h\<lparr>heap_current_break := heap_current_break h + (sz + meta_data_size)\<rparr>)"
    using fit e by (subst mm_sbrk_small [OF arena_ok_imp_initialized [OF ok] small]) (simp_all add: d)
  moreover have "heap_current_break h \<noteq> MAP_FAILED"
    using fit e unat_MAP_FAILED by auto
  ultimately show "mm_malloc_grow sz lastBlock h = Inr (heap_current_break h + meta_data_size, h')"
    using occ last_block_test [OF ok hb] by (simp add: mm_malloc_grow_def lastBlock_def h'_def)
  show br: "unat (heap_current_break h') = unat (heap_current_break h) + (unat sz + 9)"
    using fit e by (simp add: h'_def d unat_add_lem [THEN iffD1])
  have "heap_start h \<le> heap_current_break h'" "heap_current_break h' \<le> heap_end h"
    using br un fit by (simp_all add: word_le_nat_alt)
  then show "arena_ok h'"
    using ok by (simp add: arena_ok_def h'_def)
  have c: "chain (bytes h) (unat (heap_start h)) bs b"
    using hb by (simp add: heap_blocks_def b_def)
  have "unchanged (bytes h) (bytes h') (unat (heap_start h)) b"
    using fit e unfolding h'_def
    by (simp, intro unchanged_trans [OF unchanged_write_size_word unchanged_write_status_word])
      (simp_all add: b_def)
  with c have "chain (bytes h') (unat (heap_start h)) bs b"
    by (rule chain_unchanged)
  moreover have "block_end (unat (heap_start h)) bs = b"
    using chain_end [OF c] by simp
  moreover have "chain (bytes h') b [\<lparr>md_size = sz, md_status = META_DATA_STATUS_OCCUPIED\<rparr>]
      (unat (heap_current_break h'))"
    using br by (simp add: b_def) (simp add: h'_def)
  ultimately show
    "heap_blocks h' (bs @ [\<lparr>md_size = sz, md_status = META_DATA_STATUS_OCCUPIED\<rparr>])"
    by (simp add: heap_blocks_def chain_append) (simp add: h'_def)
qed

lemma grow_new_block_fail:
  assumes ok: "arena_ok h" and hb: "heap_blocks h bs"
    and occ: "bs = [] \<or> md_status (last bs) = META_DATA_STATUS_OCCUPIED"
    and small: "unat sz + 9 < 2 ^ 31"
    and nofit: "unat (heap_end h) < unat (heap_current_break h) + (unat sz + 9)"
    and nowrap: "unat (heap_current_break h) + (unat sz + 9) < 2 ^ 64"
  defines "lastBlock \<equiv>
    (if bs = [] then NULL else of_nat (block_end (unat (heap_start h)) (butlast bs)))"
  shows "mm_malloc_grow sz lastBlock h = Inl SIGSEGV"
proof -
  have d: "unat (sz + meta_data_size) = unat sz + 9"
    using small by (intro unat_plus_9) simp
  have s: "0 < unat (sz + meta_data_size)" "unat (sz + meta_data_size) < 2 ^ 31"
    using small by (simp_all add: d)
  have nw: "unat (heap_current_break h) + unat (sz + meta_data_size) < 2 ^ 64"
    using nowrap by (simp add: d)
  have "mm_sbrk (ucast (sz + meta_data_size)) h = (MAP_FAILED, h)"
    using nofit by (subst mm_sbrk_small [OF arena_ok_imp_initialized [OF ok] s nw]) (simp add: d)
  then show ?thesis
    using occ last_block_test [OF ok hb] by (simp add: mm_malloc_grow_def lastBlock_def)
qed

lemma grow_last_block_sbrk:
  assumes ok: "arena_ok h" and hb: "heap_blocks h bs" and ne: "bs \<noteq> []"
    and nocc: "md_status (last bs) \<noteq> META_DATA_STATUS_OCCUPIED"
  defines "a \<equiv> block_end (unat (heap_start h)) (butlast bs)"
  shows "mm_malloc_grow sz (of_nat a) h
    = Inr (of_nat a + meta_data_size,
       (snd (mm_sbrk (ucast (sz - md_size (last bs))) h))
         \<lparr>bytes := write_status (write_size (bytes h) (of_nat a) sz) (of_nat a)
                     META_DATA_STATUS_OCCUPIED\<rparr>)"
proof -
  have "bytes (snd (mm_sbrk x h)) = bytes h" for x
    by (simp add: mm_sbrk_def)
  then show ?thesis
    using nocc heap_blocks_last(1,2,4) [OF ok hb ne]
    by (simp add: mm_malloc_grow_def a_def split_beta)
qed

lemma grow_last_block:
  assumes ok: "arena_ok h" and hb: "heap_blocks h bs" and ne: "bs \<noteq> []"
    and nocc: "md_status (last bs) \<noteq> META_DATA_STATUS_OCCUPIED"
    and less: "unat (md_size (last bs)) < unat sz"
    and fit: "unat (heap_current_break h) + (unat sz - unat (md_size (last bs)))
                \<le> unat (heap_end h)"
  defines "a \<equiv> block_end (unat (heap_start h)) (butlast bs)"
  defines "h' \<equiv> h\<lparr>heap_current_break := heap_current_break h + (sz - md_size (last bs)),
    bytes := write_status (write_size (bytes h) (of_nat a) sz) (of_nat a)
               META_DATA_STATUS_OCCUPIED\<rparr>"
  shows "mm_malloc_grow sz (of_nat a) h = Inr (of_nat a + meta_data_size, h')"
    and "arena_ok h'"
    and "heap_blocks h' (butlast bs @ [\<lparr>md_size = sz, md_status = META_DATA_STATUS_OCCUPIED\<rparr>])"
    and "unat (heap_current_break h')
           = unat (heap_current_break h) + (unat sz - unat (md_size (last bs)))"
    and "unchanged (bytes h) (bytes h') lo a"
    and "unchanged (bytes h) (bytes h') (a + 9) (2 ^ 64)"
proof -
  define b where "b = unat (heap_current_break h)"
  define d where "d = sz - md_size (last bs)"
  note un = arena_ok_unat [OF ok]
  note lst = heap_blocks_last [OF ok hb ne, folded a_def b_def]
  have e: "unat (heap_end h) < 2 ^ 64"
    by (rule unat_addr_less)
  have "md_size (last bs) \<le> sz"
    using less by (simp add: word_le_nat_alt)
  then have d: "unat d = unat sz - unat (md_size (last bs))"
    by (simp add: d_def unat_sub)
  have small: "0 < unat d" "unat d < 2 ^ 31"
    using fit un less by (simp_all add: d)
  have "mm_sbrk (ucast d) h
      = (heap_current_break h, h\<lparr>heap_current_break := heap_current_break h + d\<rparr>)"
    using fit e by (subst mm_sbrk_small [OF arena_ok_imp_initialized [OF ok] small]) (simp_all add: d)
  then show "mm_malloc_grow sz (of_nat a) h = Inr (of_nat a + meta_data_size, h')"
    unfolding grow_last_block_sbrk [OF ok hb ne nocc, folded a_def] d_def [symmetric]
    by (simp add: h'_def d_def)
  show br: "unat (heap_current_break h')
           = unat (heap_current_break h) + (unat sz - unat (md_size (last bs)))"
    using fit e by (simp add: h'_def d_def [symmetric] d unat_add_lem [THEN iffD1])
  have "heap_start h \<le> heap_current_break h'" "heap_current_break h' \<le> heap_end h"
    using br un fit by (simp_all add: word_le_nat_alt)
  then show "arena_ok h'"
    using ok by (simp add: arena_ok_def h'_def)
  have a9: "a + 9 \<le> b" "b < 2 ^ 64"
    using lst(3) unat_addr_less [of "heap_current_break h"] by (simp_all add: b_def)
  have u1: "unchanged (bytes h) (bytes h') l a" for l
    unfolding h'_def using a9
    by (simp, intro unchanged_trans [OF unchanged_write_size unchanged_write_status]) simp_all
  show "unchanged (bytes h) (bytes h') lo a"
    by (rule u1)
  show "unchanged (bytes h) (bytes h') (a + 9) (2 ^ 64)"
    unfolding h'_def using a9
    by (simp, intro unchanged_trans [OF unchanged_write_size unchanged_write_status]) simp_all
  have "chain (bytes h') (unat (heap_start h)) (butlast bs) a"
    using lst(5) u1 by (rule chain_unchanged)
  moreover have "block_end (unat (heap_start h)) (butlast bs) = a"
    by (simp add: a_def)
  moreover have "a + 9 + unat sz = unat (heap_current_break h')"
    using br lst(3) less by (simp add: b_def)
  then have "chain (bytes h') a [\<lparr>md_size = sz, md_status = META_DATA_STATUS_OCCUPIED\<rparr>]
      (unat (heap_current_break h'))"
    by simp (simp add: h'_def)
  ultimately show
    "heap_blocks h' (butlast bs @ [\<lparr>md_size = sz, md_status = META_DATA_STATUS_OCCUPIED\<rparr>])"
    by (simp add: heap_blocks_def chain_append) (simp add: h'_def)
qed

lemma grow_last_block_fail:
  assumes ok: "arena_ok h" and hb: "heap_blocks h bs" and ne: "bs \<noteq> []"
    and nocc: "md_status (last bs) \<noteq> META_DATA_STATUS_OCCUPIED"
    and less: "unat (md_size (last bs)) < unat sz"
    and small: "unat sz < 2 ^ 31"
    and nofit: "unat (heap_end h)
                  < unat (heap_current_break h) + (unat sz - unat (md_size (last bs)))"
    and nowrap: "unat (heap_current_break h) + (unat sz - unat (md_size (last bs))) < 2 ^ 64"
  defines "a \<equiv> block_end (unat (heap_start h)) (butlast bs)"
  shows "mm_malloc_grow sz (of_nat a) h
    = Inr (of_nat a + meta_data_size,
       h\<lparr>bytes := write_status (write_size (bytes h) (of_nat a) sz) (of_nat a)
                     META_DATA_STATUS_OCCUPIED\<rparr>)"
proof -
  define d where "d = sz - md_size (last bs)"
  have "md_size (last bs) \<le> sz"
    using less by (simp add: word_le_nat_alt)
  then have d: "unat d = unat sz - unat (md_size (last bs))"
    by (simp add: d_def unat_sub)
  have s: "0 < unat d" "unat d < 2 ^ 31"
    using small less by (simp_all add: d)
  have nw: "unat (heap_current_break h) + unat d < 2 ^ 64"
    using nowrap by (simp add: d)
  have "mm_sbrk (ucast d) h = (MAP_FAILED, h)"
    using nofit by (subst mm_sbrk_small [OF arena_ok_imp_initialized [OF ok] s nw]) (simp add: d)
  then show ?thesis
    unfolding grow_last_block_sbrk [OF ok hb ne nocc, folded a_def] d_def [symmetric]
    by simp
qed

section \<open>\<^verbatim>\<open>mm_malloc\<close>: the results\<close>

lemmas status_defs = META_DATA_STATUS_FREE_def META_DATA_STATUS_OCCUPIED_def

lemma enoughToSplit_iff:
  assumes "chain m a (md # post) b" "b < 2 ^ 64" "fits sz md"
  shows "(enoughToSplit m (of_nat a) sz = 1) = (unat sz + 9 < unat (md_size md))"
proof -
  have "a + 9 + unat (md_size md) \<le> b" and rs: "read_size m (of_nat a) = md_size md"
    using assms(1) chain_Cons_less [OF assms(1)] by simp_all
  moreover have "unat sz \<le> unat (md_size md)"
    using assms(3) by (simp add: fits_def word_le_nat_alt)
  ultimately have "unat (sz + meta_data_size) = unat sz + 9"
    using assms(2) by (intro unat_plus_9) simp
  then show ?thesis
    by (simp add: enoughToSplit_def rs word_less_nat_alt)
qed

lemma unat_remainder:
  assumes "unat sz + 9 \<le> unat (S :: size_t)"
  shows "unat (S - sz - 9) = unat S - unat sz - 9"
proof -
  have n9: "unat (sz + meta_data_size) = unat sz + 9"
    using assms unat_addr_less [of S] by (intro unat_plus_9) simp
  then have "sz + meta_data_size \<le> S"
    using assms by (simp add: word_le_nat_alt)
  then have "unat (S - (sz + meta_data_size)) = unat S - (unat sz + 9)"
    by (simp add: unat_sub n9)
  then show ?thesis
    by (simp add: diff_diff_eq meta_data_size_def)
qed

text \<open>
  C3. When the first block that satisfies a request for \<open>sz\<close> bytes has size \<open>S\<close>, the
  allocator returns its payload address and leaves the break alone. It splits the block
  exactly when \<open>S > sz + 9\<close>: then the block becomes an occupied block of size \<open>sz\<close>,
  directly followed by a new free block of size \<open>S - sz - 9\<close>. Otherwise
  (\<open>sz \<le> S \<le> sz + 9\<close>) the block is marked occupied and keeps its size \<open>S\<close>. The
  blocks before and after it are as they were.
\<close>

theorem mm_malloc_split:
  assumes "arena_ok h" "heap_blocks h (pre @ md # post)" "\<forall>x\<in>set pre. \<not> fits sz x"
    "fits sz md"
  shows "\<exists>h'. mm_malloc sz h
        = Some (Inr (of_nat (block_end (unat (heap_start h)) pre) + meta_data_size, h'))
    \<and> heap_current_break h' = heap_current_break h
    \<and> (enoughToSplit (bytes h) (of_nat (block_end (unat (heap_start h)) pre)) sz = 1)
        = (unat sz + 9 < unat (md_size md))
    \<and> (unat sz + 9 < unat (md_size md) \<longrightarrow>
         heap_blocks h'
           (pre @ [\<lparr>md_size = sz, md_status = META_DATA_STATUS_OCCUPIED\<rparr>,
                   \<lparr>md_size = md_size md - sz - 9, md_status = META_DATA_STATUS_FREE\<rparr>] @ post)
         \<and> unat (md_size md - sz - 9) = unat (md_size md) - unat sz - 9)
    \<and> (unat (md_size md) \<le> unat sz + 9 \<longrightarrow>
         heap_blocks h' (pre @ [md\<lparr>md_status := META_DATA_STATUS_OCCUPIED\<rparr>] @ post))"
proof -
  define a where "a = block_end (unat (heap_start h)) pre"
  define h' where "h' = h\<lparr>bytes := take_block (bytes h) (of_nat a) sz\<rparr>"
  have c: "chain (bytes h) a (md # post) (unat (heap_current_break h))"
    using assms(2) by (simp add: heap_blocks_def chain_append a_def)
  have "mm_malloc sz h = Some (Inr (of_nat a + meta_data_size, h'))"
    unfolding a_def h'_def by (rule mm_malloc_fit(1) [OF assms])
  moreover have "heap_current_break h' = heap_current_break h"
    by (simp add: h'_def)
  moreover have "(enoughToSplit (bytes h) (of_nat a) sz = 1) = (unat sz + 9 < unat (md_size md))"
    using c unat_addr_less assms(4) by (rule enoughToSplit_iff)
  moreover have hb: "heap_blocks h' (pre @ carve sz md @ post)"
    unfolding a_def h'_def by (rule mm_malloc_fit(2) [OF assms])
  moreover have "unat sz + 9 < unat (md_size md) \<Longrightarrow>
      unat (md_size md - sz - 9) = unat (md_size md) - unat sz - 9"
    by (intro unat_remainder) simp
  ultimately show ?thesis
    unfolding a_def [symmetric] by (intro exI [of _ h']) (auto simp add: carve_def)
qed

lemma free_30_occ_5_ok:
  "arena_ok free_30_occ_5"
  "heap_blocks free_30_occ_5
     ([] @ \<lparr>md_size = 30, md_status = META_DATA_STATUS_FREE\<rparr>
          # [\<lparr>md_size = 5, md_status = META_DATA_STATUS_OCCUPIED\<rparr>])"
  by (simp_all add: arena_ok_def heap_blocks_def free_30_occ_5_def with_header_def HEAP_SIZE_def
      NULL_def status_defs read_other)

theorem mm_malloc_split_witness:
  "arena_ok free_30_occ_5
   \<and> heap_blocks free_30_occ_5
        ([] @ \<lparr>md_size = 30, md_status = META_DATA_STATUS_FREE\<rparr>
             # [\<lparr>md_size = 5, md_status = META_DATA_STATUS_OCCUPIED\<rparr>])
   \<and> fits 10 \<lparr>md_size = 30, md_status = META_DATA_STATUS_FREE\<rparr>
   \<and> fits 25 \<lparr>md_size = 30, md_status = META_DATA_STATUS_FREE\<rparr>
   \<and> (\<exists>h'. mm_malloc 10 free_30_occ_5 = Some (Inr (4105, h'))
         \<and> heap_blocks h'
             [\<lparr>md_size = 10, md_status = META_DATA_STATUS_OCCUPIED\<rparr>,
              \<lparr>md_size = 11, md_status = META_DATA_STATUS_FREE\<rparr>,
              \<lparr>md_size = 5, md_status = META_DATA_STATUS_OCCUPIED\<rparr>])
   \<and> (\<exists>h'. mm_malloc 25 free_30_occ_5 = Some (Inr (4105, h'))
         \<and> heap_blocks h'
             [\<lparr>md_size = 30, md_status = META_DATA_STATUS_OCCUPIED\<rparr>,
              \<lparr>md_size = 5, md_status = META_DATA_STATUS_OCCUPIED\<rparr>])"
proof -
  have f: "fits 10 \<lparr>md_size = 30, md_status = META_DATA_STATUS_FREE\<rparr>"
    "fits 25 \<lparr>md_size = 30, md_status = META_DATA_STATUS_FREE\<rparr>"
    by (simp_all add: fits_def)
  have s: "heap_start free_30_occ_5 = 4096"
    by (simp add: free_30_occ_5_def)
  show ?thesis
    using f free_30_occ_5_ok
      mm_malloc_split [OF free_30_occ_5_ok _ f(1)] mm_malloc_split [OF free_30_occ_5_ok _ f(2)]
    by (simp add: s meta_data_size_def) blast
qed

lemma mm_malloc_first_fit_general:
  assumes "arena_ok h" "heap_blocks h bs" "dropWhile (\<lambda>x. \<not> fits sz x) bs = md # post"
  shows "fits sz md"
    and "mm_malloc sz h
        = Some (Inr (of_nat (block_end (unat (heap_start h)) (takeWhile (\<lambda>x. \<not> fits sz x) bs))
                  + meta_data_size,
                h\<lparr>bytes := take_block (bytes h)
                  (of_nat (block_end (unat (heap_start h)) (takeWhile (\<lambda>x. \<not> fits sz x) bs)))
                  sz\<rparr>))"
    and "heap_blocks (h\<lparr>bytes := take_block (bytes h)
                  (of_nat (block_end (unat (heap_start h)) (takeWhile (\<lambda>x. \<not> fits sz x) bs)))
                  sz\<rparr>)
           (takeWhile (\<lambda>x. \<not> fits sz x) bs @ carve sz md @ post)"
proof -
  define pre where "pre = takeWhile (\<lambda>x. \<not> fits sz x) bs"
  have bs: "bs = pre @ md # post"
    using takeWhile_dropWhile_id [of "\<lambda>x. \<not> fits sz x" bs] assms(3) by (simp add: pre_def)
  have pre: "\<forall>x\<in>set pre. \<not> fits sz x"
    by (auto simp add: pre_def dest: set_takeWhileD)
  show md: "fits sz md"
    using hd_dropWhile [of "\<lambda>x. \<not> fits sz x" bs] assms(3) by simp
  show "mm_malloc sz h
        = Some (Inr (of_nat (block_end (unat (heap_start h)) (takeWhile (\<lambda>x. \<not> fits sz x) bs))
                  + meta_data_size,
                h\<lparr>bytes := take_block (bytes h)
                  (of_nat (block_end (unat (heap_start h)) (takeWhile (\<lambda>x. \<not> fits sz x) bs)))
                  sz\<rparr>))"
    using mm_malloc_fit(1) [OF assms(1) assms(2) [unfolded bs] pre md] by (simp add: pre_def)
  show "heap_blocks (h\<lparr>bytes := take_block (bytes h)
                  (of_nat (block_end (unat (heap_start h)) (takeWhile (\<lambda>x. \<not> fits sz x) bs)))
                  sz\<rparr>)
           (takeWhile (\<lambda>x. \<not> fits sz x) bs @ carve sz md @ post)"
    using mm_malloc_fit(2) [OF assms(1) assms(2) [unfolded bs] pre md] by (simp add: pre_def)
qed

text \<open>
  C4. The allocator takes the first block, in address order, that is free and has at least
  \<open>sz\<close> bytes, whatever free blocks come later: it returns the payload address of that
  block and changes that block only. With free blocks of sizes 2, 10 and 5 and a request
  for 4 bytes it takes the block of size 10, whose payload lies 20 bytes behind
  \<^verbatim>\<open>heap_start\<close>, and not the block of size 5.
\<close>

theorem mm_malloc_first_fit:
  "(arena_ok h \<and> heap_blocks h bs \<and> dropWhile (\<lambda>x. \<not> fits sz x) bs = md # post \<longrightarrow>
      fits sz md
      \<and> (\<exists>h'. mm_malloc sz h
            = Some (Inr (of_nat (block_end (unat (heap_start h))
                             (takeWhile (\<lambda>x. \<not> fits sz x) bs)) + meta_data_size, h'))
          \<and> heap_blocks h' (takeWhile (\<lambda>x. \<not> fits sz x) bs @ carve sz md @ post)))
   \<and> (arena_ok h
       \<and> heap_blocks h [\<lparr>md_size = 2, md_status = META_DATA_STATUS_FREE\<rparr>,
                         \<lparr>md_size = 10, md_status = META_DATA_STATUS_FREE\<rparr>,
                         \<lparr>md_size = 5, md_status = META_DATA_STATUS_FREE\<rparr>] \<longrightarrow>
      (\<exists>h'. mm_malloc 4 h = Some (Inr (heap_start h + 20, h'))
          \<and> heap_blocks h' [\<lparr>md_size = 2, md_status = META_DATA_STATUS_FREE\<rparr>,
                             \<lparr>md_size = 10, md_status = META_DATA_STATUS_OCCUPIED\<rparr>,
                             \<lparr>md_size = 5, md_status = META_DATA_STATUS_FREE\<rparr>]))"
proof (intro conjI impI)
  assume a: "arena_ok h \<and> heap_blocks h bs \<and> dropWhile (\<lambda>x. \<not> fits sz x) bs = md # post"
  then show "fits sz md"
    by (intro mm_malloc_first_fit_general(1) [of h bs sz md post]) simp_all
  from a show "\<exists>h'. mm_malloc sz h
            = Some (Inr (of_nat (block_end (unat (heap_start h))
                             (takeWhile (\<lambda>x. \<not> fits sz x) bs)) + meta_data_size, h'))
          \<and> heap_blocks h' (takeWhile (\<lambda>x. \<not> fits sz x) bs @ carve sz md @ post)"
    using mm_malloc_first_fit_general(2,3) [of h bs sz md post] by blast
next
  let ?bs = "[\<lparr>md_size = 2, md_status = META_DATA_STATUS_FREE\<rparr>,
              \<lparr>md_size = 10, md_status = META_DATA_STATUS_FREE\<rparr>,
              \<lparr>md_size = 5, md_status = META_DATA_STATUS_FREE\<rparr>]"
  assume a: "arena_ok h \<and> heap_blocks h ?bs"
  have d: "dropWhile (\<lambda>x. \<not> fits 4 x) ?bs
      = \<lparr>md_size = 10, md_status = META_DATA_STATUS_FREE\<rparr>
        # [\<lparr>md_size = 5, md_status = META_DATA_STATUS_FREE\<rparr>]"
    and t: "takeWhile (\<lambda>x. \<not> fits 4 x) ?bs = [\<lparr>md_size = 2, md_status = META_DATA_STATUS_FREE\<rparr>]"
    by (simp_all add: fits_def)
  have c: "carve 4 \<lparr>md_size = 10, md_status = META_DATA_STATUS_FREE\<rparr>
      = [\<lparr>md_size = 10, md_status = META_DATA_STATUS_OCCUPIED\<rparr>]"
    by (simp add: carve_def)
  from a mm_malloc_first_fit_general(2,3) [of h ?bs 4, OF _ _ d]
  show "\<exists>h'. mm_malloc 4 h = Some (Inr (heap_start h + 20, h'))
          \<and> heap_blocks h' [\<lparr>md_size = 2, md_status = META_DATA_STATUS_FREE\<rparr>,
                             \<lparr>md_size = 10, md_status = META_DATA_STATUS_OCCUPIED\<rparr>,
                             \<lparr>md_size = 5, md_status = META_DATA_STATUS_FREE\<rparr>]"
    unfolding t c by (simp add: meta_data_size_def)
qed

lemma free_2_10_5_ok:
  "arena_ok free_2_10_5"
  "heap_blocks free_2_10_5
     [\<lparr>md_size = 2, md_status = META_DATA_STATUS_FREE\<rparr>,
      \<lparr>md_size = 10, md_status = META_DATA_STATUS_FREE\<rparr>,
      \<lparr>md_size = 5, md_status = META_DATA_STATUS_FREE\<rparr>]"
  by (simp_all add: arena_ok_def heap_blocks_def free_2_10_5_def with_header_def HEAP_SIZE_def
      NULL_def status_defs read_other)

theorem mm_malloc_first_fit_witness:
  "arena_ok free_2_10_5
   \<and> heap_blocks free_2_10_5
       [\<lparr>md_size = 2, md_status = META_DATA_STATUS_FREE\<rparr>,
        \<lparr>md_size = 10, md_status = META_DATA_STATUS_FREE\<rparr>,
        \<lparr>md_size = 5, md_status = META_DATA_STATUS_FREE\<rparr>]
   \<and> dropWhile (\<lambda>x. \<not> fits 4 x)
       [\<lparr>md_size = 2, md_status = META_DATA_STATUS_FREE\<rparr>,
        \<lparr>md_size = 10, md_status = META_DATA_STATUS_FREE\<rparr>,
        \<lparr>md_size = 5, md_status = META_DATA_STATUS_FREE\<rparr>]
     = \<lparr>md_size = 10, md_status = META_DATA_STATUS_FREE\<rparr>
       # [\<lparr>md_size = 5, md_status = META_DATA_STATUS_FREE\<rparr>]
   \<and> (\<exists>h'. mm_malloc 4 free_2_10_5 = Some (Inr (4116, h'))
         \<and> heap_blocks h'
             [\<lparr>md_size = 2, md_status = META_DATA_STATUS_FREE\<rparr>,
              \<lparr>md_size = 10, md_status = META_DATA_STATUS_OCCUPIED\<rparr>,
              \<lparr>md_size = 5, md_status = META_DATA_STATUS_FREE\<rparr>])"
proof -
  have s: "heap_start free_2_10_5 = 4096"
    by (simp add: free_2_10_5_def)
  have d: "dropWhile (\<lambda>x. \<not> fits 4 x)
       [\<lparr>md_size = 2, md_status = META_DATA_STATUS_FREE\<rparr>,
        \<lparr>md_size = 10, md_status = META_DATA_STATUS_FREE\<rparr>,
        \<lparr>md_size = 5, md_status = META_DATA_STATUS_FREE\<rparr>]
     = \<lparr>md_size = 10, md_status = META_DATA_STATUS_FREE\<rparr>
       # [\<lparr>md_size = 5, md_status = META_DATA_STATUS_FREE\<rparr>]"
    by (simp add: fits_def)
  show ?thesis
    using free_2_10_5_ok d
      mm_malloc_first_fit [of free_2_10_5
        "[\<lparr>md_size = 2, md_status = META_DATA_STATUS_FREE\<rparr>,
          \<lparr>md_size = 10, md_status = META_DATA_STATUS_FREE\<rparr>,
          \<lparr>md_size = 5, md_status = META_DATA_STATUS_FREE\<rparr>]"
        4 "\<lparr>md_size = 10, md_status = META_DATA_STATUS_FREE\<rparr>"
        "[\<lparr>md_size = 5, md_status = META_DATA_STATUS_FREE\<rparr>]"]
    by (simp add: s)
qed

text \<open>
  C5. When no block satisfies the request, the last block \<open>lst\<close> is free, and the arena
  has room for the growth, then \<open>lst\<close> is smaller than the request, the break advances by
  exactly \<open>sz - size lst\<close>, the last block gets size \<open>sz\<close> and becomes occupied, and its
  payload address is returned. No header is created: the list has as many blocks as
  before, and memory outside the nine bytes of the last header is untouched.
\<close>

theorem mm_malloc_grows_last_block:
  assumes "arena_ok h" "heap_blocks h (pre @ [lst])" "\<forall>x\<in>set (pre @ [lst]). \<not> fits sz x"
    "md_status lst = META_DATA_STATUS_FREE"
    "unat (heap_current_break h) + (unat sz - unat (md_size lst)) \<le> unat (heap_end h)"
  shows "unat (md_size lst) < unat sz
    \<and> (\<exists>h'. mm_malloc sz h
          = Some (Inr (of_nat (block_end (unat (heap_start h)) pre) + meta_data_size, h'))
        \<and> unat (heap_current_break h')
          = unat (heap_current_break h) + (unat sz - unat (md_size lst))
        \<and> heap_start h' = heap_start h \<and> heap_end h' = heap_end h
        \<and> heap_blocks h' (pre @ [\<lparr>md_size = sz, md_status = META_DATA_STATUS_OCCUPIED\<rparr>])
        \<and> unchanged (bytes h) (bytes h') 0 (block_end (unat (heap_start h)) pre)
        \<and> unchanged (bytes h) (bytes h') (block_end (unat (heap_start h)) pre + 9) (2 ^ 64))"
proof -
  define a where "a = block_end (unat (heap_start h)) pre"
  define h' where "h' = h\<lparr>heap_current_break := heap_current_break h + (sz - md_size lst),
    bytes := write_status (write_size (bytes h) (of_nat a) sz) (of_nat a)
               META_DATA_STATUS_OCCUPIED\<rparr>"
  have ne: "pre @ [lst] \<noteq> []" and nocc: "md_status (last (pre @ [lst])) \<noteq> META_DATA_STATUS_OCCUPIED"
    using assms(4) by (simp_all add: status_defs)
  have less: "unat (md_size lst) < unat sz"
    using assms(3,4) by (simp add: fits_def word_le_nat_alt)
  have less': "unat (md_size (last (pre @ [lst]))) < unat sz"
    using less by simp
  have fit': "unat (heap_current_break h) + (unat sz - unat (md_size (last (pre @ [lst]))))
      \<le> unat (heap_end h)"
    using assms(5) by simp
  note g = grow_last_block [OF assms(1,2) ne nocc less' fit']
  have "mm_malloc_grow sz (of_nat a) h = Inr (of_nat a + meta_data_size, h')"
    using g(1) by (simp add: a_def h'_def)
  then have "mm_malloc sz h = Some (Inr (of_nat a + meta_data_size, h'))"
    using mm_malloc_nofit [OF assms(1-3)] by (simp add: a_def)
  moreover have "heap_start h' = heap_start h" "heap_end h' = heap_end h"
    by (simp_all add: h'_def)
  moreover have "unat (heap_current_break h')
      = unat (heap_current_break h) + (unat sz - unat (md_size lst))"
    using g(4) by (simp add: a_def h'_def)
  moreover have
    "heap_blocks h' (pre @ [\<lparr>md_size = sz, md_status = META_DATA_STATUS_OCCUPIED\<rparr>])"
    using g(3) by (simp add: a_def h'_def)
  moreover have "unchanged (bytes h) (bytes h') 0 a"
    using g(5) [of 0] by (simp add: a_def h'_def)
  moreover have "unchanged (bytes h) (bytes h') (a + 9) (2 ^ 64)"
    using g(6) by (simp add: a_def h'_def)
  ultimately show ?thesis
    using less unfolding a_def [symmetric] by (intro conjI exI [of _ h']) simp_all
qed

lemma occ_5_free_2_ok:
  "arena_ok occ_5_free_2"
  "heap_blocks occ_5_free_2
     ([\<lparr>md_size = 5, md_status = META_DATA_STATUS_OCCUPIED\<rparr>]
      @ [\<lparr>md_size = 2, md_status = META_DATA_STATUS_FREE\<rparr>])"
  by (simp_all add: arena_ok_def heap_blocks_def occ_5_free_2_def with_header_def HEAP_SIZE_def
      NULL_def status_defs read_other)

theorem mm_malloc_grows_last_block_witness:
  "arena_ok occ_5_free_2
   \<and> heap_blocks occ_5_free_2
       ([\<lparr>md_size = 5, md_status = META_DATA_STATUS_OCCUPIED\<rparr>]
        @ [\<lparr>md_size = 2, md_status = META_DATA_STATUS_FREE\<rparr>])
   \<and> \<not> fits 10 \<lparr>md_size = 5, md_status = META_DATA_STATUS_OCCUPIED\<rparr>
   \<and> \<not> fits 10 \<lparr>md_size = 2, md_status = META_DATA_STATUS_FREE\<rparr>
   \<and> unat (heap_current_break occ_5_free_2) = 4121
   \<and> (\<exists>h'. mm_malloc 10 occ_5_free_2 = Some (Inr (4119, h'))
         \<and> unat (heap_current_break h') = 4129
         \<and> heap_blocks h'
             [\<lparr>md_size = 5, md_status = META_DATA_STATUS_OCCUPIED\<rparr>,
              \<lparr>md_size = 10, md_status = META_DATA_STATUS_OCCUPIED\<rparr>])"
proof -
  have f: "\<forall>x\<in>set ([\<lparr>md_size = 5, md_status = META_DATA_STATUS_OCCUPIED\<rparr>]
        @ [\<lparr>md_size = 2, md_status = META_DATA_STATUS_FREE\<rparr>]). \<not> fits 10 x"
    by (simp add: fits_def status_defs)
  have s: "heap_start occ_5_free_2 = 4096" "heap_current_break occ_5_free_2 = 4121"
    "heap_end occ_5_free_2 = 12096"
    by (simp_all add: occ_5_free_2_def)
  show ?thesis
    using f occ_5_free_2_ok mm_malloc_grows_last_block [OF occ_5_free_2_ok f]
    by (simp add: s meta_data_size_def status_defs) blast
qed

section \<open>\<^verbatim>\<open>mm_malloc\<close>: exhaustion and the null pointer\<close>







lemma mm_sbrk_refuses:
  assumes "initialized h" "0 < unat (d :: size_t)" "unat d < 2 ^ 31"
    "unat (heap_current_break h) + unat d < 2 ^ 64"
    "unat (heap_end h) < unat (heap_current_break h) + unat d"
  shows "mm_sbrk (ucast d) h = (MAP_FAILED, h)"
  using assms(5) by (subst mm_sbrk_small [OF assms(1-4)]) simp

text \<open>
  What \<^verbatim>\<open>mm_malloc\<close> does when the arena is exhausted: no block satisfies the request
  and the growth the request needs exceeds the room between the break and \<^verbatim>\<open>heap_end\<close>.
  \<^verbatim>\<open>mm_sbrk\<close> refuses and leaves the three pointers alone, and \<^verbatim>\<open>mm_malloc\<close> goes on
  as if the arena had grown. Where it wants a new block, it stores through the failure
  value and faults. Where the last block is not occupied, it writes the requested size
  and the occupied mark into the header of that block and returns its payload address,
  with the break where it was.
\<close>

lemma mm_malloc_exhausted_general:
  assumes ok: "arena_ok h" and hb: "heap_blocks h bs"
    and nf: "\<forall>x\<in>set bs. \<not> fits sz x" and small: "unat sz + 9 < 2 ^ 31"
    and ex: "unat (heap_end h) - unat (heap_current_break h) < needed_growth sz bs"
    and nowrap: "unat (heap_current_break h) + needed_growth sz bs < 2 ^ 64"
  shows "mm_sbrk (growth_request sz bs) h = (MAP_FAILED, h)"
    and "bs = [] \<or> md_status (last bs) = META_DATA_STATUS_OCCUPIED \<Longrightarrow>
           mm_malloc sz h = Some (Inl SIGSEGV)"
    and "bs \<noteq> [] \<and> md_status (last bs) \<noteq> META_DATA_STATUS_OCCUPIED \<Longrightarrow>
           mm_malloc sz h
             = Some (Inr (of_nat (block_end (unat (heap_start h)) (butlast bs)) + meta_data_size,
                 h\<lparr>bytes := write_status
                     (write_size (bytes h)
                        (of_nat (block_end (unat (heap_start h)) (butlast bs))) sz)
                     (of_nat (block_end (unat (heap_start h)) (butlast bs)))
                     META_DATA_STATUS_OCCUPIED\<rparr>))"
proof -
  note un = arena_ok_unat [OF ok]
  note i = arena_ok_imp_initialized [OF ok]
  show "mm_sbrk (growth_request sz bs) h = (MAP_FAILED, h)"
  proof (cases "bs = [] \<or> md_status (last bs) = META_DATA_STATUS_OCCUPIED")
    case True
    have d: "unat (sz + meta_data_size) = unat sz + 9"
      using small by (intro unat_plus_9) simp
    have "mm_sbrk (ucast (sz + meta_data_size)) h = (MAP_FAILED, h)"
      using ex True un small nowrap
      by (intro mm_sbrk_refuses [OF i]) (simp_all add: d needed_growth_def)
    then show ?thesis
      using True by (simp add: growth_request_def)
  next
    case False
    then have less: "unat (md_size (last bs)) < unat sz"
      using ex by (simp add: needed_growth_def)
    then have "md_size (last bs) \<le> sz"
      by (simp add: word_le_nat_alt)
    then have d: "unat (sz - md_size (last bs)) = unat sz - unat (md_size (last bs))"
      by (simp add: unat_sub)
    have "mm_sbrk (ucast (sz - md_size (last bs))) h = (MAP_FAILED, h)"
      using ex False un small less nowrap
      by (intro mm_sbrk_refuses [OF i]) (simp_all add: d needed_growth_def)
    then show ?thesis
      using False by (simp add: growth_request_def)
  qed
  show "mm_malloc sz h = Some (Inl SIGSEGV)"
    if occ: "bs = [] \<or> md_status (last bs) = META_DATA_STATUS_OCCUPIED"
  proof -
    have "unat (heap_end h) < unat (heap_current_break h) + (unat sz + 9)"
      using ex occ un by (simp add: needed_growth_def)
    moreover have "unat (heap_current_break h) + (unat sz + 9) < 2 ^ 64"
      using nowrap occ by (simp add: needed_growth_def)
    ultimately show ?thesis
      using grow_new_block_fail [OF ok hb occ small] mm_malloc_nofit [OF ok hb nf]
      by simp
  qed
  show "mm_malloc sz h
      = Some (Inr (of_nat (block_end (unat (heap_start h)) (butlast bs)) + meta_data_size,
          h\<lparr>bytes := write_status
              (write_size (bytes h)
                 (of_nat (block_end (unat (heap_start h)) (butlast bs))) sz)
              (of_nat (block_end (unat (heap_start h)) (butlast bs)))
              META_DATA_STATUS_OCCUPIED\<rparr>))"
    if free: "bs \<noteq> [] \<and> md_status (last bs) \<noteq> META_DATA_STATUS_OCCUPIED"
  proof -
    from free have ne: "bs \<noteq> []" and nocc: "md_status (last bs) \<noteq> META_DATA_STATUS_OCCUPIED"
      by simp_all
    have less: "unat (md_size (last bs)) < unat sz"
      using ex free by (simp add: needed_growth_def)
    have "unat (heap_end h) < unat (heap_current_break h) + (unat sz - unat (md_size (last bs)))"
      using ex free un by (simp add: needed_growth_def)
    moreover have "unat (heap_current_break h) + (unat sz - unat (md_size (last bs))) < 2 ^ 64"
      using nowrap free by (simp add: needed_growth_def)
    moreover have "unat sz < 2 ^ 31"
      using small by simp
    ultimately show ?thesis
      using grow_last_block_fail [OF ok hb ne nocc less] mm_malloc_nofit [OF ok hb nf] ne
      by simp
  qed
qed

lemma empty_arena_ok:
  "arena_ok empty_arena" "heap_blocks empty_arena []" "initialized empty_arena"
  by (simp_all add: arena_ok_def heap_blocks_def empty_arena_def HEAP_SIZE_def NULL_def
      initialized_def)

lemma high_free_2_ok:
  "arena_ok high_free_2"
  "heap_blocks high_free_2 [\<lparr>md_size = 2, md_status = META_DATA_STATUS_FREE\<rparr>]"
  by (simp_all add: arena_ok_def heap_blocks_def high_free_2_def HEAP_SIZE_def NULL_def
      with_header_def status_defs read_other)

lemma reachable_empty_arena: "reachable empty_arena"
  using reachable.start [of 4294967296 "\<lambda>_. 0"]
  by (simp add: empty_arena_def NULL_def HEAP_SIZE_def)

lemma reachable_high_free_2: "reachable high_free_2"
proof -
  define h1 where "h1 = \<lparr>heap_start = 4294967296, heap_end = 4294975296,
     heap_current_break = 4294967307,
     bytes = with_header (\<lambda>_. 0) 4294967296 2 META_DATA_STATUS_OCCUPIED\<rparr>"
  have "malloc_succeeds 2 empty_arena"
    by (simp add: malloc_succeeds_def mm_malloc_loop.simps mm_sbrk_def empty_arena_def NULL_def)
  moreover have "mm_malloc 2 empty_arena = Some (Inr (4294967305, h1))"
    by (simp add: mm_malloc_def mm_malloc_loop.simps mm_malloc_grow_def mm_sbrk_def
        empty_arena_def h1_def NULL_def meta_data_size_def MAP_FAILED_def with_header_def
        word_sless_alt)
  ultimately have "reachable h1"
    using reachable_empty_arena by (intro reachable.malloc [of empty_arena 2 4294967305 h1])
  moreover have "heap_blocks h1 ([] @ \<lparr>md_size = 2, md_status = META_DATA_STATUS_OCCUPIED\<rparr> # [])"
    by (simp add: heap_blocks_def h1_def with_header_def status_defs read_other)
  moreover have "(4294967305 :: addr)
      = of_nat (block_end (unat (heap_start h1)) []) + meta_data_size"
    by (simp add: h1_def meta_data_size_def)
  ultimately have "reachable (mm_free 4294967305 h1)"
    by (rule reachable.free)
  moreover have "mm_free 4294967305 h1 = high_free_2"
    by (simp add: mm_free_def h1_def high_free_2_def with_header_def write_status_def
        meta_data_size_def)
  ultimately show ?thesis
    by simp
qed

text \<open>
  C1. The claim wants a request that the arena cannot satisfy to fail and to leave the
  block list and the break as they were, with no header written. The program does not
  test what \<^verbatim>\<open>mm_sbrk\<close> returns. After \<^verbatim>\<open>malloc a 2\<close> and \<^verbatim>\<open>free a\<close> the arena of
  8000 bytes holds one free block of 2 bytes and has 7989 bytes left. A request for 8000
  bytes fits no block, and 8009 bytes, and also the 7998 bytes the program asks for, are
  more than is left: \<^verbatim>\<open>mm_sbrk\<close> refuses. Yet \<^verbatim>\<open>mm_malloc\<close> returns the payload
  address of the block and has rewritten its header, so that the printed list is one
  occupied block of 8000 bytes where it was one free block of 2 bytes. In the arena with
  no block, a request for 7992 bytes, which with its header is one byte too large, makes
  \<^verbatim>\<open>mm_malloc\<close> store through \<^verbatim>\<open>MAP_FAILED\<close>: the call faults.
\<close>

theorem mm_malloc_exhaustion_rewrites_header:
  "reachable high_free_2
   \<and> heap_blocks high_free_2 [\<lparr>md_size = 2, md_status = META_DATA_STATUS_FREE\<rparr>]
   \<and> \<not> fits 8000 \<lparr>md_size = 2, md_status = META_DATA_STATUS_FREE\<rparr>
   \<and> unat (heap_end high_free_2) - unat (heap_current_break high_free_2) = 7989
   \<and> unat (8000 + meta_data_size) = 8009
   \<and> mm_sbrk 7998 high_free_2 = (MAP_FAILED, high_free_2)
   \<and> mm_malloc 8000 high_free_2
       = Some (Inr (4294967305,
           high_free_2\<lparr>bytes := with_header (bytes high_free_2) 4294967296 8000
                                   META_DATA_STATUS_OCCUPIED\<rparr>))
   \<and> mm_print high_free_2 = Some [(1, ''FREE'', 2)]
   \<and> mm_print (high_free_2\<lparr>bytes := with_header (bytes high_free_2) 4294967296 8000
                                       META_DATA_STATUS_OCCUPIED\<rparr>)
       = Some [(1, ''OCCP'', 8000)]
   \<and> reachable empty_arena
   \<and> heap_blocks empty_arena []
   \<and> unat (heap_end empty_arena) - unat (heap_current_break empty_arena) = 8000
   \<and> unat (7992 + meta_data_size) = 8001
   \<and> mm_sbrk 8001 empty_arena = (MAP_FAILED, empty_arena)
   \<and> mm_malloc 7992 empty_arena = Some (Inl SIGSEGV)"
proof -
  have "mm_malloc 8000 high_free_2
       = Some (Inr (4294967305,
           high_free_2\<lparr>bytes := with_header (bytes high_free_2) 4294967296 8000
                                   META_DATA_STATUS_OCCUPIED\<rparr>))"
    by (simp add: mm_malloc_def mm_malloc_loop.simps mm_malloc_grow_def mm_sbrk_def
        high_free_2_def NULL_def meta_data_size_def MAP_FAILED_def with_header_def
        word_sless_alt status_defs read_other)
  moreover have "mm_print high_free_2 = Some [(1, ''FREE'', 2)]"
    by (simp add: mm_print_def mm_print_loop.simps mm_sbrk_def high_free_2_def NULL_def
        meta_data_size_def with_header_def status_defs read_other)
  moreover have "mm_print (high_free_2\<lparr>bytes := with_header (bytes high_free_2) 4294967296 8000
                                       META_DATA_STATUS_OCCUPIED\<rparr>)
       = Some [(1, ''OCCP'', 8000)]"
    by (simp add: mm_print_def mm_print_loop.simps mm_sbrk_def high_free_2_def NULL_def
        meta_data_size_def with_header_def status_defs read_other)
  moreover have "mm_sbrk 7998 high_free_2 = (MAP_FAILED, high_free_2)"
    by (simp add: mm_sbrk_def high_free_2_def NULL_def word_sless_alt)
  moreover have "mm_sbrk 8001 empty_arena = (MAP_FAILED, empty_arena)"
    by (simp add: mm_sbrk_def empty_arena_def NULL_def word_sless_alt)
  moreover have "mm_malloc 7992 empty_arena = Some (Inl SIGSEGV)"
    by (simp add: mm_malloc_def mm_malloc_loop.simps mm_malloc_grow_def mm_sbrk_def
        empty_arena_def NULL_def meta_data_size_def MAP_FAILED_def word_sless_alt)
  moreover have "unat (heap_end high_free_2) - unat (heap_current_break high_free_2) = 7989"
    "unat (heap_end empty_arena) - unat (heap_current_break empty_arena) = 8000"
    by (simp_all add: high_free_2_def empty_arena_def)
  ultimately show ?thesis
    using reachable_high_free_2 reachable_empty_arena high_free_2_ok(2) empty_arena_ok(2)
    by (simp add: fits_def meta_data_size_def)
qed




section \<open>\<^verbatim>\<open>mm_combine_nearby_free\<close>\<close>

lemma merged_size_Cons:
  "merged_size (md # run) = md_size md + sum_list (map (\<lambda>x. meta_data_size + md_size x) run)"
proof -
  have "sum_list (map (\<lambda>x. meta_data_size + md_size x) run)
      = sum_list (map md_size run) + meta_data_size * of_nat (length run)"
    by (induction run) (simp_all add: algebra_simps)
  then show ?thesis
    by (simp add: merged_size_def)
qed

lemma merged_size_single [simp]: "merged_size [md] = md_size md"
  by (simp add: merged_size_def)

lemma merged_size_absorb:
  "merged_size (md\<lparr>md_size := md_size md + (meta_data_size + md_size x)\<rparr> # run)
    = merged_size (md # x # run)"
  by (simp add: merged_size_Cons algebra_simps)

lemma unat_absorb:
  assumes "unat (s :: size_t) + 9 + unat (t :: size_t) < 2 ^ 64"
  shows "unat (s + (meta_data_size + t)) = unat s + 9 + unat t"
proof -
  have "unat (meta_data_size + t) = 9 + unat t"
    using assms by (simp add: meta_data_size_def unat_add_lem [THEN iffD1])
  then show ?thesis
    using assms by (simp add: unat_add_lem [THEN iffD1])
qed

lemma next_of_nat:
  "(of_nat a :: addr) + meta_data_size + sz = of_nat (a + 9 + unat sz)"
  by (simp add: meta_data_size_def)

lemma combine_inner_not_free:
  assumes "read_status m cur \<noteq> META_DATA_STATUS_FREE"
  shows "combine_inner brk cur m = Some (False, m)"
  using assms by (subst combine_inner.simps) simp

lemma combine_inner_run:
  assumes "chain m a (md # rest) (unat brk)" "is_free md"
  shows "\<exists>m'. combine_inner brk (of_nat a) m = Some (dropWhile is_free rest = [], m')
    \<and> chain m' a (\<lparr>md_size = merged_size (md # takeWhile is_free rest),
                      md_status = META_DATA_STATUS_FREE\<rparr> # dropWhile is_free rest) (unat brk)
    \<and> a + 9 + unat (merged_size (md # takeWhile is_free rest))
        = block_end a (md # takeWhile is_free rest)
    \<and> (\<forall>lo. unchanged m m' lo a) \<and> unchanged m m' (a + 8) (2 ^ 64)
    \<and> (takeWhile is_free rest = [] \<longrightarrow> m' = m)"
  using assms
proof (induction rest arbitrary: md m)
  case Nil
  then have e: "a + 9 + unat (md_size md) = unat brk"
    and rt: "read_status m (of_nat a) = META_DATA_STATUS_FREE"
    and rs: "read_size m (of_nat a) = md_size md"
    by (simp_all add: is_free_def)
  then have "a < unat brk" "a < 2 ^ 64"
    using unat_addr_less [of brk] by simp_all
  then have lt: "(of_nat a :: addr) < brk"
    by (simp add: of_nat_less_addr)
  have nx: "(of_nat a :: addr) + meta_data_size + md_size md = brk"
    unfolding next_of_nat e by simp
  have "combine_inner brk (of_nat a) m = Some (True, m)"
    using lt rt by (subst combine_inner.simps) (simp add: rs nx)
  moreover have "md = \<lparr>md_size = md_size md, md_status = META_DATA_STATUS_FREE\<rparr>"
    using Nil.prems(2) by (simp add: is_free_def)
  ultimately show ?case
    using Nil.prems(1) by (intro exI [of _ m]) (simp add: rs rt)
next
  case (Cons x xs)
  define n where "n = a + 9 + unat (md_size md)"
  have rt: "read_status m (of_nat a) = META_DATA_STATUS_FREE"
    and rs: "read_size m (of_nat a) = md_size md"
    and cx: "chain m n (x # xs) (unat brk)"
    using Cons.prems by (simp_all add: is_free_def n_def)
  have le: "n + 9 + unat (md_size x) \<le> unat brk"
    using cx by (rule chain_Cons_less)
  have b: "unat brk < 2 ^ 64"
    by (rule unat_addr_less)
  have "a < n" "n < unat brk" "n < 2 ^ 64"
    using le b by (simp_all add: n_def)
  then have lt: "(of_nat a :: addr) < brk" "(of_nat n :: addr) < brk"
    using b by (simp_all add: of_nat_less_addr)
  have nx: "(of_nat a :: addr) + meta_data_size + md_size md = of_nat n"
    unfolding next_of_nat n_def by simp
  have rx: "read_status m (of_nat n) = md_status x" "read_size m (of_nat n) = md_size x"
    using cx by simp_all
  show ?case
  proof (cases "is_free x")
    case False
    have "combine_inner brk (of_nat a) m = Some (False, m)"
      using lt rt False by (subst combine_inner.simps) (simp add: rs nx rx is_free_def)
    moreover have "md = \<lparr>md_size = md_size md, md_status = META_DATA_STATUS_FREE\<rparr>"
      using Cons.prems(2) by (simp add: is_free_def)
    ultimately show ?thesis
      using Cons.prems(1) False by (intro exI [of _ m]) (simp add: rs rt)
  next
    case True
    define md' where "md' = md\<lparr>md_size := md_size md + (meta_data_size + md_size x)\<rparr>"
    define m1 where "m1 = write_size m (of_nat a) (md_size md')"
    have step: "combine_inner brk (of_nat a) m = combine_inner brk (of_nat a) m1"
      using lt rt True
      by (subst combine_inner.simps) (simp add: rs nx rx is_free_def m1_def md'_def)
    have u: "unat (md_size md') = unat (md_size md) + 9 + unat (md_size x)"
      unfolding md'_def using le b by (simp add: unat_absorb n_def)
    have un1: "unchanged m m1 lo a" for lo
      unfolding m1_def using le b by (intro unchanged_write_size) (simp_all add: n_def)
    have un2: "unchanged m m1 (a + 8) (2 ^ 64)"
      unfolding m1_def using le b by (intro unchanged_write_size) (simp_all add: n_def)
    have "unchanged m m1 (n + 9 + unat (md_size x)) (unat brk)"
      using b by (intro unchanged_mono [OF un2]) (simp_all add: n_def)
    moreover have "chain m (n + 9 + unat (md_size x)) xs (unat brk)"
      using cx by simp
    ultimately have cm1: "chain m1 (n + 9 + unat (md_size x)) xs (unat brk)"
      by (rule chain_unchanged [rotated])
    have e1: "a + 9 + unat (md_size md') = n + 9 + unat (md_size x)"
      using u by (simp add: n_def)
    have r1: "read_size m1 (of_nat a) = md_size md'"
      by (simp add: m1_def)
    have r2: "read_status m1 (of_nat a) = md_status md'"
      using rt Cons.prems(2) by (simp add: m1_def md'_def is_free_def)
    have c1: "chain m1 a (md' # xs) (unat brk)"
      using r1 r2 cm1 by (simp only: chain.simps e1 simp_thms)
    have f: "is_free md'"
      using Cons.prems(2) by (simp add: md'_def is_free_def)
    from Cons.IH [OF c1 f] obtain m' where
      r: "combine_inner brk (of_nat a) m1 = Some (dropWhile is_free xs = [], m')"
      and c: "chain m' a (\<lparr>md_size = merged_size (md' # takeWhile is_free xs),
                      md_status = META_DATA_STATUS_FREE\<rparr> # dropWhile is_free xs) (unat brk)"
      and e: "a + 9 + unat (merged_size (md' # takeWhile is_free xs))
        = block_end a (md' # takeWhile is_free xs)"
      and v1: "\<forall>lo. unchanged m1 m' lo a" and v2: "unchanged m1 m' (a + 8) (2 ^ 64)"
      by blast
    have tw: "takeWhile is_free (x # xs) = x # takeWhile is_free xs"
      and dw: "dropWhile is_free (x # xs) = dropWhile is_free xs"
      using True by simp_all
    have ms: "merged_size (md' # takeWhile is_free xs) = merged_size (md # x # takeWhile is_free xs)"
      unfolding md'_def by (rule merged_size_absorb)
    have "a + 9 + unat (md_size md') = a + 9 + unat (md_size md) + 9 + unat (md_size x)"
      using u by simp
    then have be: "block_end a (md' # takeWhile is_free xs)
        = block_end a (md # x # takeWhile is_free xs)"
      by (simp only: block_end.simps)
    have "combine_inner brk (of_nat a) m = Some (dropWhile is_free (x # xs) = [], m')"
      unfolding dw step by (rule r)
    moreover have "chain m' a (\<lparr>md_size = merged_size (md # takeWhile is_free (x # xs)),
        md_status = META_DATA_STATUS_FREE\<rparr> # dropWhile is_free (x # xs)) (unat brk)"
      unfolding tw dw using c unfolding ms .
    moreover have "a + 9 + unat (merged_size (md # takeWhile is_free (x # xs)))
        = block_end a (md # takeWhile is_free (x # xs))"
      unfolding tw using e unfolding ms be .
    moreover have "\<forall>lo. unchanged m m' lo a"
      using un1 v1 by (blast intro: unchanged_trans)
    moreover have "unchanged m m' (a + 8) (2 ^ 64)"
      using un2 v2 by (rule unchanged_trans)
    moreover have "takeWhile is_free (x # xs) \<noteq> []"
      using True by simp
    ultimately show ?thesis
      by blast
  qed
qed

lemma block_addresses_append:
  "block_addresses a (xs @ ys) = block_addresses a xs @ block_addresses (block_end a xs) ys"
  by (induction xs arbitrary: a) simp_all

lemma filter_block_addresses_free:
  "\<forall>x\<in>set xs. is_free x \<Longrightarrow> filter (\<lambda>(p, md). \<not> is_free md) (block_addresses a xs) = []"
  by (induction xs arbitrary: a) simp_all

lemma no_adjacent_free_tail: "no_adjacent_free (x # xs) \<Longrightarrow> no_adjacent_free xs"
  by (cases xs) simp_all

lemma no_adjacent_free_run:
  "is_free md \<Longrightarrow> no_adjacent_free (md # mds)
    \<Longrightarrow> takeWhile is_free mds = [] \<and> dropWhile is_free mds = mds"
  by (cases mds) simp_all

lemma combine_outer_end: "combine_outer brk brk m = Some m"
  by (subst combine_outer.simps) simp

lemma combine_outer_chain:
  assumes "chain m a bs (unat brk)"
  shows "\<exists>m'. combine_outer brk (of_nat a) m = Some m'
    \<and> chain m' a (collapse_free_runs bs) (unat brk)
    \<and> (\<forall>lo. unchanged m m' lo a)
    \<and> filter (\<lambda>(p, md). \<not> is_free md) (block_addresses a (collapse_free_runs bs))
        = filter (\<lambda>(p, md). \<not> is_free md) (block_addresses a bs)
    \<and> (no_adjacent_free bs \<longrightarrow> m' = m)"
  using assms
proof (induction bs arbitrary: a m rule: collapse_free_runs.induct)
  case 1
  then have "(of_nat a :: addr) = brk"
    by simp
  then show ?case
    using "1.prems" by (intro exI [of _ m]) (simp add: combine_outer_end)
next
  case (2 md mds)
  have b: "unat brk < 2 ^ 64"
    by (rule unat_addr_less)
  have le: "a + 9 + unat (md_size md) \<le> unat brk"
    using "2.prems" by (rule chain_Cons_less)
  then have lt: "(of_nat a :: addr) < brk"
    using b by (simp add: of_nat_less_addr)
  show ?case
  proof (cases "is_free md")
    case False
    define n where "n = a + 9 + unat (md_size md)"
    have rt: "read_status m (of_nat a) = md_status md"
      and rs: "read_size m (of_nat a) = md_size md"
      and cn: "chain m n mds (unat brk)"
      using "2.prems" by (simp_all add: n_def)
    have "combine_inner brk (of_nat a) m = Some (False, m)"
      using False by (intro combine_inner_not_free) (simp add: rt is_free_def)
    then have step: "combine_outer brk (of_nat a) m = combine_outer brk (of_nat n) m"
      using lt by (subst combine_outer.simps) (simp add: rs advance_of_nat n_def)
    from "2.IH"(2) [OF False cn] obtain m' where
      r: "combine_outer brk (of_nat n) m = Some m'"
      and c: "chain m' n (collapse_free_runs mds) (unat brk)"
      and u: "\<forall>lo. unchanged m m' lo n"
      and f: "filter (\<lambda>(p, md). \<not> is_free md) (block_addresses n (collapse_free_runs mds))
        = filter (\<lambda>(p, md). \<not> is_free md) (block_addresses n mds)"
      and i: "no_adjacent_free mds \<longrightarrow> m' = m"
      by blast
    have ua: "unchanged m m' lo a" for lo
      using u by (auto intro: unchanged_mono simp add: n_def)
    have "unchanged m m' a (a + 9)"
      using u by (auto intro: unchanged_mono simp add: n_def)
    then have "read_size m' (of_nat a) = read_size m (of_nat a)"
      "read_status m' (of_nat a) = read_status m (of_nat a)"
      by (auto intro!: unchanged_read_size unchanged_read_status intro: unchanged_mono)
    then have "chain m' a (md # collapse_free_runs mds) (unat brk)"
      using c rs rt by (simp add: n_def)
    then show ?thesis
      using False r f i ua no_adjacent_free_tail [of md mds]
      by (intro exI [of _ m']) (auto simp add: step n_def)
  next
    case True
    define T where "T = takeWhile is_free mds"
    define D where "D = dropWhile is_free mds"
    define M where "M = \<lparr>md_size = merged_size (md # T), md_status = META_DATA_STATUS_FREE\<rparr>"
    define n where "n = a + 9 + unat (md_size M)"
    from combine_inner_run [OF "2.prems" True] obtain m1 where
      r1: "combine_inner brk (of_nat a) m = Some (D = [], m1)"
      and c1: "chain m1 a (M # D) (unat brk)"
      and e1: "n = block_end a (md # T)"
      and u1: "\<forall>lo. unchanged m m1 lo a"
      and i1: "T = [] \<longrightarrow> m1 = m"
      unfolding T_def D_def M_def n_def by auto
    have cn: "chain m1 n D (unat brk)" and rs: "read_size m1 (of_nat a) = md_size M"
      and rt: "read_status m1 (of_nat a) = md_status M"
      using c1 by (simp_all add: n_def)
    from "2.IH"(1) [OF True cn [unfolded D_def]] obtain m' where
      r: "combine_outer brk (of_nat n) m1 = Some m'"
      and c: "chain m' n (collapse_free_runs D) (unat brk)"
      and u: "\<forall>lo. unchanged m1 m' lo n"
      and f: "filter (\<lambda>(p, md). \<not> is_free md) (block_addresses n (collapse_free_runs D))
        = filter (\<lambda>(p, md). \<not> is_free md) (block_addresses n D)"
      and i: "no_adjacent_free D \<longrightarrow> m' = m1"
      unfolding D_def by blast
    have "D = [] \<Longrightarrow> m' = m1"
      using r cn by (simp add: combine_outer_end)
    then have step: "combine_outer brk (of_nat a) m = Some m'"
      using lt r1 r by (subst combine_outer.simps) (auto simp add: rs advance_of_nat n_def)
    have ua: "unchanged m m' lo a" for lo
    proof -
      have "unchanged m1 m' lo a"
        using u by (auto intro: unchanged_mono simp add: n_def)
      with u1 show ?thesis
        by (blast intro: unchanged_trans)
    qed
    have "unchanged m1 m' a (a + 9)"
      using u by (auto intro: unchanged_mono simp add: n_def)
    then have "read_size m' (of_nat a) = read_size m1 (of_nat a)"
      "read_status m' (of_nat a) = read_status m1 (of_nat a)"
      by (auto intro!: unchanged_read_size unchanged_read_status intro: unchanged_mono)
    then have "chain m' a (M # collapse_free_runs D) (unat brk)"
      using c rs rt by (simp add: n_def)
    then have ch: "chain m' a (collapse_free_runs (md # mds)) (unat brk)"
      using True by (simp add: M_def T_def D_def)
    have mds: "mds = T @ D"
      by (simp add: T_def D_def)
    have "\<forall>x\<in>set (md # T). is_free x"
      using True by (auto simp add: T_def dest: set_takeWhileD)
    then have "filter (\<lambda>(p, md). \<not> is_free md) (block_addresses a (md # T)) = []"
      by (rule filter_block_addresses_free)
    then have "filter (\<lambda>(p, md). \<not> is_free md) (block_addresses a ((md # T) @ D))
        = filter (\<lambda>(p, md). \<not> is_free md) (block_addresses n D)"
      unfolding block_addresses_append e1 by (simp only: filter_append append_Nil)
    moreover have "filter (\<lambda>(p, md). \<not> is_free md)
          (block_addresses a (collapse_free_runs (md # mds)))
        = filter (\<lambda>(p, md). \<not> is_free md) (block_addresses n (collapse_free_runs D))"
      using True by (simp add: M_def [symmetric] T_def [symmetric] D_def [symmetric] n_def)
        (simp add: M_def is_free_def)
    ultimately have fl: "filter (\<lambda>(p, md). \<not> is_free md)
          (block_addresses a (collapse_free_runs (md # mds)))
        = filter (\<lambda>(p, md). \<not> is_free md) (block_addresses a (md # mds))"
      using f mds by simp
    have "m' = m" if "no_adjacent_free (md # mds)"
    proof -
      from no_adjacent_free_run [OF True that] have "T = []" "D = mds"
        by (simp_all add: T_def D_def)
      then show ?thesis
        using i i1 no_adjacent_free_tail [OF that] by simp
    qed
    then show ?thesis
      using step ch ua fl by (intro exI [of _ m']) blast
  qed
qed

lemma no_adjacent_free_Cons:
  "no_adjacent_free (x # ys)
    = ((ys = [] \<or> \<not> (is_free x \<and> is_free (hd ys))) \<and> no_adjacent_free ys)"
  by (cases ys) auto

lemma collapse_free_runs_hd:
  "bs \<noteq> [] \<Longrightarrow> collapse_free_runs bs \<noteq> []
     \<and> is_free (hd (collapse_free_runs bs)) = is_free (hd bs)"
  by (cases bs) (simp_all add: is_free_def)

lemma no_adjacent_free_collapse: "no_adjacent_free (collapse_free_runs bs)"
proof (induction bs rule: collapse_free_runs.induct)
  case 1
  then show ?case by simp
next
  case (2 md mds)
  show ?case
  proof (cases "is_free md")
    case False
    with "2.IH"(2) show ?thesis
      by (simp add: no_adjacent_free_Cons)
  next
    case True
    have "dropWhile is_free mds \<noteq> [] \<Longrightarrow> \<not> is_free (hd (dropWhile is_free mds))"
      by (rule hd_dropWhile)
    then have "collapse_free_runs (dropWhile is_free mds) = []
        \<or> \<not> is_free (hd (collapse_free_runs (dropWhile is_free mds)))"
      using collapse_free_runs_hd [of "dropWhile is_free mds"]
      by (cases "dropWhile is_free mds = []") (simp_all del: dropWhile_eq_Nil_conv)
    with True "2.IH"(1) show ?thesis
      by (auto simp add: no_adjacent_free_Cons)
  qed
qed

lemma arena_ok_bytes_update [simp]: "arena_ok (h\<lparr>bytes := m\<rparr>) = arena_ok h"
  by (simp add: arena_ok_def)

lemma mm_combine_nearby_free_blocks:
  assumes "arena_ok h" "heap_blocks h bs"
  shows "\<exists>m'. mm_combine_nearby_free h = Some (h\<lparr>bytes := m'\<rparr>)
    \<and> heap_blocks (h\<lparr>bytes := m'\<rparr>) (collapse_free_runs bs)
    \<and> (\<forall>lo. unchanged (bytes h) m' lo (unat (heap_start h)))
    \<and> filter (\<lambda>(p, md). \<not> is_free md)
          (block_addresses (unat (heap_start h)) (collapse_free_runs bs))
        = filter (\<lambda>(p, md). \<not> is_free md) (block_addresses (unat (heap_start h)) bs)
    \<and> (no_adjacent_free bs \<longrightarrow> m' = bytes h)"
proof -
  from combine_outer_chain [OF assms(2) [unfolded heap_blocks_def]] obtain m' where
    "combine_outer (heap_current_break h) (of_nat (unat (heap_start h))) (bytes h) = Some m'"
    "chain m' (unat (heap_start h)) (collapse_free_runs bs) (unat (heap_current_break h))"
    "\<forall>lo. unchanged (bytes h) m' lo (unat (heap_start h))"
    "filter (\<lambda>(p, md). \<not> is_free md)
          (block_addresses (unat (heap_start h)) (collapse_free_runs bs))
        = filter (\<lambda>(p, md). \<not> is_free md) (block_addresses (unat (heap_start h)) bs)"
    "no_adjacent_free bs \<longrightarrow> m' = bytes h"
    by blast
  then show ?thesis
    using assms(1) by (intro exI [of _ m']) (simp add: mm_combine_nearby_free_def heap_blocks_def)
qed

text \<open>
  C6. One call of \<^verbatim>\<open>mm_combine_nearby_free\<close> on a well-formed block list returns and
  leaves the three pointers alone. Afterwards every maximal run of consecutive free blocks
  is one free block whose size is the sum of the payload sizes of the run plus nine bytes
  for each block of the run but the first, and no two neighbours are both free. Every
  block that is not free, so every occupied block, is still there with its address, its
  size and its status. Three free
  blocks of sizes 3, 4 and 5 become one free block of size \<open>3 + 4 + 5 + 2 * 9\<close>.
\<close>

theorem mm_combine_nearby_free_collapses_runs:
  "(arena_ok h \<and> heap_blocks h bs \<longrightarrow>
      (\<exists>h'. mm_combine_nearby_free h = Some h'
         \<and> heap_start h' = heap_start h \<and> heap_end h' = heap_end h
         \<and> heap_current_break h' = heap_current_break h
         \<and> heap_blocks h' (collapse_free_runs bs)
         \<and> no_adjacent_free (collapse_free_runs bs)
         \<and> filter (\<lambda>(p, md). \<not> is_free md)
              (block_addresses (unat (heap_start h)) (collapse_free_runs bs))
            = filter (\<lambda>(p, md). \<not> is_free md) (block_addresses (unat (heap_start h)) bs)))
   \<and> (arena_ok h
       \<and> heap_blocks h [\<lparr>md_size = 3, md_status = META_DATA_STATUS_FREE\<rparr>,
                         \<lparr>md_size = 4, md_status = META_DATA_STATUS_FREE\<rparr>,
                         \<lparr>md_size = 5, md_status = META_DATA_STATUS_FREE\<rparr>] \<longrightarrow>
      (\<exists>h'. mm_combine_nearby_free h = Some h'
         \<and> heap_blocks h' [\<lparr>md_size = 3 + 4 + 5 + 2 * meta_data_size,
                              md_status = META_DATA_STATUS_FREE\<rparr>]))"
proof (intro conjI impI)
  assume "arena_ok h \<and> heap_blocks h bs"
  then obtain m' where "mm_combine_nearby_free h = Some (h\<lparr>bytes := m'\<rparr>)"
    "heap_blocks (h\<lparr>bytes := m'\<rparr>) (collapse_free_runs bs)"
    "filter (\<lambda>(p, md). \<not> is_free md)
          (block_addresses (unat (heap_start h)) (collapse_free_runs bs))
        = filter (\<lambda>(p, md). \<not> is_free md) (block_addresses (unat (heap_start h)) bs)"
    using mm_combine_nearby_free_blocks [of h bs] by blast
  then show "\<exists>h'. mm_combine_nearby_free h = Some h'
         \<and> heap_start h' = heap_start h \<and> heap_end h' = heap_end h
         \<and> heap_current_break h' = heap_current_break h
         \<and> heap_blocks h' (collapse_free_runs bs)
         \<and> no_adjacent_free (collapse_free_runs bs)
         \<and> filter (\<lambda>(p, md). \<not> is_free md)
              (block_addresses (unat (heap_start h)) (collapse_free_runs bs))
            = filter (\<lambda>(p, md). \<not> is_free md) (block_addresses (unat (heap_start h)) bs)"
    using no_adjacent_free_collapse [of bs]
    by (intro exI [of _ "h\<lparr>bytes := m'\<rparr>"]) simp
next
  let ?bs = "[\<lparr>md_size = 3, md_status = META_DATA_STATUS_FREE\<rparr>,
              \<lparr>md_size = 4, md_status = META_DATA_STATUS_FREE\<rparr>,
              \<lparr>md_size = 5, md_status = META_DATA_STATUS_FREE\<rparr>]"
  assume "arena_ok h \<and> heap_blocks h ?bs"
  then obtain m' where "mm_combine_nearby_free h = Some (h\<lparr>bytes := m'\<rparr>)"
    "heap_blocks (h\<lparr>bytes := m'\<rparr>) (collapse_free_runs ?bs)"
    using mm_combine_nearby_free_blocks [of h ?bs] by blast
  moreover have "collapse_free_runs ?bs
      = [\<lparr>md_size = 3 + 4 + 5 + 2 * meta_data_size, md_status = META_DATA_STATUS_FREE\<rparr>]"
    by (simp add: is_free_def merged_size_def meta_data_size_def)
  ultimately show "\<exists>h'. mm_combine_nearby_free h = Some h'
         \<and> heap_blocks h' [\<lparr>md_size = 3 + 4 + 5 + 2 * meta_data_size,
                              md_status = META_DATA_STATUS_FREE\<rparr>]"
    by (intro exI [of _ "h\<lparr>bytes := m'\<rparr>"]) simp
qed

lemma free_3_4_5_ok:
  "arena_ok free_3_4_5"
  "heap_blocks free_3_4_5
     [\<lparr>md_size = 3, md_status = META_DATA_STATUS_FREE\<rparr>,
      \<lparr>md_size = 4, md_status = META_DATA_STATUS_FREE\<rparr>,
      \<lparr>md_size = 5, md_status = META_DATA_STATUS_FREE\<rparr>]"
  by (simp_all add: arena_ok_def heap_blocks_def free_3_4_5_def with_header_def HEAP_SIZE_def
      NULL_def status_defs read_other)

theorem mm_combine_nearby_free_collapses_runs_witness:
  "arena_ok free_3_4_5
   \<and> heap_blocks free_3_4_5
       [\<lparr>md_size = 3, md_status = META_DATA_STATUS_FREE\<rparr>,
        \<lparr>md_size = 4, md_status = META_DATA_STATUS_FREE\<rparr>,
        \<lparr>md_size = 5, md_status = META_DATA_STATUS_FREE\<rparr>]
   \<and> (\<exists>h'. mm_combine_nearby_free free_3_4_5 = Some h'
         \<and> heap_blocks h' [\<lparr>md_size = 30, md_status = META_DATA_STATUS_FREE\<rparr>])
   \<and> arena_ok free_30_occ_5
   \<and> heap_blocks free_30_occ_5
        [\<lparr>md_size = 30, md_status = META_DATA_STATUS_FREE\<rparr>,
         \<lparr>md_size = 5, md_status = META_DATA_STATUS_OCCUPIED\<rparr>]
   \<and> (\<exists>h'. mm_combine_nearby_free free_30_occ_5 = Some h'
         \<and> heap_current_break h' = 4149
         \<and> heap_blocks h'
             [\<lparr>md_size = 30, md_status = META_DATA_STATUS_FREE\<rparr>,
              \<lparr>md_size = 5, md_status = META_DATA_STATUS_OCCUPIED\<rparr>])"
proof -
  have c: "collapse_free_runs
      [\<lparr>md_size = 30, md_status = META_DATA_STATUS_FREE\<rparr>,
       \<lparr>md_size = 5, md_status = META_DATA_STATUS_OCCUPIED\<rparr>]
    = [\<lparr>md_size = 30, md_status = META_DATA_STATUS_FREE\<rparr>,
       \<lparr>md_size = 5, md_status = META_DATA_STATUS_OCCUPIED\<rparr>]"
    by (simp add: is_free_def status_defs)
  have c2: "collapse_free_runs
      [\<lparr>md_size = 3, md_status = META_DATA_STATUS_FREE\<rparr>,
       \<lparr>md_size = 4, md_status = META_DATA_STATUS_FREE\<rparr>,
       \<lparr>md_size = 5, md_status = META_DATA_STATUS_FREE\<rparr>]
    = [\<lparr>md_size = 30, md_status = META_DATA_STATUS_FREE\<rparr>]"
    by (simp add: is_free_def merged_size_def meta_data_size_def)
  have b: "heap_current_break free_30_occ_5 = 4149"
    by (simp add: free_30_occ_5_def)
  have h: "heap_blocks free_30_occ_5
        [\<lparr>md_size = 30, md_status = META_DATA_STATUS_FREE\<rparr>,
         \<lparr>md_size = 5, md_status = META_DATA_STATUS_OCCUPIED\<rparr>]"
    using free_30_occ_5_ok(2) by simp
  show ?thesis
    using free_3_4_5_ok free_30_occ_5_ok(1) h
      mm_combine_nearby_free_collapses_runs [of free_3_4_5
        "[\<lparr>md_size = 3, md_status = META_DATA_STATUS_FREE\<rparr>,
          \<lparr>md_size = 4, md_status = META_DATA_STATUS_FREE\<rparr>,
          \<lparr>md_size = 5, md_status = META_DATA_STATUS_FREE\<rparr>]"]
      mm_combine_nearby_free_collapses_runs [of free_30_occ_5
        "[\<lparr>md_size = 30, md_status = META_DATA_STATUS_FREE\<rparr>,
          \<lparr>md_size = 5, md_status = META_DATA_STATUS_OCCUPIED\<rparr>]"]
    by (simp add: c c2 b meta_data_size_def del: collapse_free_runs.simps) blast
qed

text \<open>
  C7. \<^verbatim>\<open>mm_combine_nearby_free\<close> is idempotent on well-formed block lists: the second of
  two calls in a row writes nothing, so the heap after the second call is the heap after
  the first, and \<^verbatim>\<open>mm_print\<close> prints the same lines after both.
\<close>

theorem mm_combine_nearby_free_idempotent:
  assumes "arena_ok h" "heap_blocks h bs"
  shows "\<exists>h' h''. mm_combine_nearby_free h = Some h' \<and> mm_combine_nearby_free h' = Some h''
    \<and> h'' = h'
    \<and> mm_print h' = Some (block_lines 1 (collapse_free_runs bs))
    \<and> mm_print h'' = mm_print h'"
proof -
  from mm_combine_nearby_free_blocks [OF assms] obtain m' where
    r: "mm_combine_nearby_free h = Some (h\<lparr>bytes := m'\<rparr>)"
    and hb: "heap_blocks (h\<lparr>bytes := m'\<rparr>) (collapse_free_runs bs)"
    by blast
  have ok: "arena_ok (h\<lparr>bytes := m'\<rparr>)"
    using assms(1) by simp
  from mm_combine_nearby_free_blocks [OF ok hb] no_adjacent_free_collapse [of bs]
  have r2: "mm_combine_nearby_free (h\<lparr>bytes := m'\<rparr>) = Some (h\<lparr>bytes := m'\<rparr>)"
    by auto
  have "mm_print (h\<lparr>bytes := m'\<rparr>) = Some (block_lines 1 (collapse_free_runs bs))"
    using ok hb by (rule mm_print_heap_blocks)
  then show ?thesis
    using r r2 by (intro exI [of _ "h\<lparr>bytes := m'\<rparr>"]) simp
qed

theorem mm_combine_nearby_free_idempotent_witness:
  "arena_ok free_3_4_5
   \<and> heap_blocks free_3_4_5
       [\<lparr>md_size = 3, md_status = META_DATA_STATUS_FREE\<rparr>,
        \<lparr>md_size = 4, md_status = META_DATA_STATUS_FREE\<rparr>,
        \<lparr>md_size = 5, md_status = META_DATA_STATUS_FREE\<rparr>]
   \<and> (\<exists>h'. mm_combine_nearby_free free_3_4_5 = Some h'
         \<and> mm_combine_nearby_free h' = Some h'
         \<and> mm_print h' = Some [(1, ''FREE'', 30)])"
proof -
  have c: "collapse_free_runs
      [\<lparr>md_size = 3, md_status = META_DATA_STATUS_FREE\<rparr>,
       \<lparr>md_size = 4, md_status = META_DATA_STATUS_FREE\<rparr>,
       \<lparr>md_size = 5, md_status = META_DATA_STATUS_FREE\<rparr>]
    = [\<lparr>md_size = 30, md_status = META_DATA_STATUS_FREE\<rparr>]"
    by (simp add: is_free_def merged_size_def meta_data_size_def)
  show ?thesis
    using free_3_4_5_ok mm_combine_nearby_free_idempotent [OF free_3_4_5_ok]
    by (simp add: c del: collapse_free_runs.simps)
qed

section \<open>Reachable heaps\<close>

lemma walk_end_chain:
  "chain m a bs (unat brk) \<Longrightarrow> walk_end m brk (of_nat a) = Some brk"
proof (induction bs arbitrary: a)
  case Nil
  then show ?case
    by (subst walk_end.simps) simp
next
  case (Cons md mds)
  from Cons.prems have le: "a + 9 + unat (md_size md) \<le> unat brk"
    by (rule chain_Cons_less)
  then have "a < 2 ^ 64" "a < unat brk"
    using unat_addr_less [of brk] by simp_all
  then have lt: "(of_nat a :: addr) < brk"
    by (simp add: of_nat_less_addr)
  have "walk_end m brk (of_nat (a + 9 + unat (md_size md))) = Some brk"
    using Cons.prems by (intro Cons.IH) simp
  then show ?case
    using Cons.prems lt by (subst walk_end.simps) (simp add: advance_of_nat)
qed

lemma block_addresses_ge: "x \<in> set (block_addresses a bs) \<Longrightarrow> a \<le> fst x"
proof (induction bs arbitrary: a)
  case Nil
  then show ?case by simp
next
  case (Cons md mds)
  from Cons.prems
  have "x = (a, md) \<or> x \<in> set (block_addresses (a + 9 + unat (md_size md)) mds)"
    by simp
  then show ?case
    using Cons.IH [of "a + 9 + unat (md_size md)"] by auto
qed

lemma chain_unique: "chain m a bs b \<Longrightarrow> chain m a bs' b \<Longrightarrow> bs = bs'"
proof (induction bs arbitrary: a bs')
  case Nil
  then show ?case
    using chain_Cons_less [of m a _ _ b] by (cases bs') auto
next
  case (Cons md mds)
  show ?case
  proof (cases bs')
    case Nil
    then show ?thesis
      using Cons.prems chain_Cons_less [of m a md mds b] by simp
  next
    case (Cons x xs)
    then have "md = x"
      using Cons.prems by simp
    moreover from this have "mds = xs"
      using Cons.prems Cons by (intro Cons.IH [of "a + 9 + unat (md_size md)" xs]) simp_all
    ultimately show ?thesis
      using Cons by simp
  qed
qed

lemma block_addresses_sorted:
  "sorted_wrt (\<lambda>x y. fst x + 9 + unat (md_size (snd x)) \<le> fst y) (block_addresses a bs)"
proof (induction bs arbitrary: a)
  case Nil
  then show ?case by simp
next
  case (Cons md mds)
  then show ?case
    by (auto dest: block_addresses_ge)
qed

lemma no_overlap_block_addresses: "no_overlap (block_addresses a bs)"
  unfolding no_overlap_def
proof (intro allI impI)
  fix i j
  assume i: "i < length (block_addresses a bs)" and j: "j < length (block_addresses a bs)"
    and ne: "i \<noteq> j"
  let ?L = "block_addresses a bs"
  have ord: "fst (?L ! k) + 9 + unat (md_size (snd (?L ! k))) \<le> fst (?L ! l)"
    if "k < l" "l < length ?L" for k l
    using block_addresses_sorted [of a bs] that by (simp add: sorted_wrt_iff_nth_less)
  show "block_range (?L ! i) \<inter> block_range (?L ! j) = {}"
  proof (cases "i < j")
    case True
    from ord [OF True j] show ?thesis
      by (auto simp add: block_range_def)
  next
    case False
    then have "j < i" using ne by simp
    from ord [OF this i] show ?thesis
      by (auto simp add: block_range_def)
  qed
qed

lemma block_addresses_within:
  "x \<in> set (block_addresses a bs) \<Longrightarrow> block_range x \<subseteq> {a ..< block_end a bs}"
proof (induction bs arbitrary: a)
  case Nil
  then show ?case by simp
next
  case (Cons md mds)
  show ?case
  proof (cases "x = (a, md)")
    case True
    then show ?thesis
      using block_end_ge [of "a + 9 + unat (md_size md)" mds] by (auto simp add: block_range_def)
  next
    case False
    then have "x \<in> set (block_addresses (a + 9 + unat (md_size md)) mds)"
      using Cons.prems by simp
    from Cons.IH [OF this] show ?thesis
      by auto
  qed
qed

lemma statuses_ok_carve:
  "statuses_ok (pre @ md # post) \<Longrightarrow> statuses_ok (pre @ carve sz md @ post)"
  by (auto simp add: statuses_ok_def carve_def)

lemma statuses_ok_collapse: "statuses_ok bs \<Longrightarrow> statuses_ok (collapse_free_runs bs)"
proof (induction bs rule: collapse_free_runs.induct)
  case 1
  then show ?case by simp
next
  case (2 md mds)
  have "set (dropWhile is_free mds) \<subseteq> set mds"
    by (rule set_dropWhileD [THEN subsetI])
  then have "statuses_ok (dropWhile is_free mds)"
    using "2.prems" by (auto simp add: statuses_ok_def)
  moreover have "statuses_ok mds"
    using "2.prems" by (simp add: statuses_ok_def)
  ultimately show ?case
    using 2 by (auto simp add: statuses_ok_def)
qed

lemma reachable_invariant:
  assumes "reachable h"
  shows "arena_ok h \<and> (\<exists>bs. heap_blocks h bs \<and> statuses_ok bs)"
  using assms
proof (induction rule: reachable.induct)
  case (start a m)
  let ?h = "\<lparr>heap_start = a, heap_end = a + ucast HEAP_SIZE, heap_current_break = a, bytes = m\<rparr>"
  have "unat (a + 8000) = unat a + 8000"
    using start by (simp add: HEAP_SIZE_def unat_add_lem [THEN iffD1])
  then have "a \<le> a + 8000"
    by (simp add: word_le_nat_alt)
  then have "arena_ok ?h"
    using start by (simp add: arena_ok_def HEAP_SIZE_def)
  moreover have "heap_blocks ?h []" "statuses_ok []"
    by (simp_all add: heap_blocks_def statuses_ok_def)
  ultimately show ?case
    by blast
next
  case (malloc h sz p h')
  then obtain bs where ok: "arena_ok h" and hb: "heap_blocks h bs" and st: "statuses_ok bs"
    by blast
  show ?case
  proof (cases "dropWhile (\<lambda>x. \<not> fits sz x) bs")
    case (Cons md post)
    note g = mm_malloc_first_fit_general [OF ok hb Cons]
    have bs: "bs = takeWhile (\<lambda>x. \<not> fits sz x) bs @ md # post"
      using takeWhile_dropWhile_id [of "\<lambda>x. \<not> fits sz x" bs] Cons by simp
    have "statuses_ok (takeWhile (\<lambda>x. \<not> fits sz x) bs @ carve sz md @ post)"
      using st bs statuses_ok_carve by metis
    moreover have "h' = h\<lparr>bytes := take_block (bytes h)
        (of_nat (block_end (unat (heap_start h)) (takeWhile (\<lambda>x. \<not> fits sz x) bs))) sz\<rparr>"
      using g(2) malloc.hyps(3) by simp
    ultimately show ?thesis
      using g(3) ok by auto
  next
    case Nil
    then have nf: "\<forall>x\<in>set bs. \<not> fits sz x"
      by (simp add: dropWhile_eq_Nil_conv)
    define lastBlock where "lastBlock =
      (if bs = [] then NULL else of_nat (block_end (unat (heap_start h)) (butlast bs)))"
    have loop: "mm_malloc_loop sz (fst (mm_sbrk 0 h)) (heap_start h) NULL (bytes h)
        = Some (Inr lastBlock)"
      unfolding lastBlock_def by (rule mm_malloc_loop_nofit [OF ok hb nf])
    have h': "mm_malloc_grow sz lastBlock h = Inr (p, h')"
      using mm_malloc_nofit [OF ok hb nf] malloc.hyps(3) by (simp add: lastBlock_def)
    note test = last_block_test [OF ok hb, folded lastBlock_def]
    show ?thesis
    proof (cases "bs = [] \<or> md_status (last bs) = META_DATA_STATUS_OCCUPIED")
      case True
      then have fit: "unat (heap_current_break h) + (unat sz + 9) \<le> unat (heap_end h)"
        using malloc.hyps(2) test by (simp add: malloc_succeeds_def loop)
      note g = grow_new_block [OF ok hb True fit, folded lastBlock_def]
      have "statuses_ok (bs @ [\<lparr>md_size = sz, md_status = META_DATA_STATUS_OCCUPIED\<rparr>])"
        using st by (simp add: statuses_ok_def)
      then show ?thesis
        using g h' by auto
    next
      case False
      then have ne: "bs \<noteq> []" and nocc: "md_status (last bs) \<noteq> META_DATA_STATUS_OCCUPIED"
        by simp_all
      have fr: "md_status (last bs) = META_DATA_STATUS_FREE"
        using st ne nocc by (auto simp add: statuses_ok_def)
      have less: "unat (md_size (last bs)) < unat sz"
        using nf ne fr by (auto simp add: fits_def word_le_nat_alt)
      have rs: "read_size (bytes h) lastBlock = md_size (last bs)"
        using heap_blocks_last(1) [OF ok hb ne] ne by (simp add: lastBlock_def)
      have fit: "unat (heap_current_break h) + (unat sz - unat (md_size (last bs)))
          \<le> unat (heap_end h)"
        using malloc.hyps(2) test False by (simp add: malloc_succeeds_def loop rs)
      note g = grow_last_block [OF ok hb ne nocc less fit]
      have "set (butlast bs) \<subseteq> set bs"
        by (auto dest: in_set_butlastD)
      then have "statuses_ok (butlast bs @ [\<lparr>md_size = sz, md_status = META_DATA_STATUS_OCCUPIED\<rparr>])"
        using st by (auto simp add: statuses_ok_def)
      then show ?thesis
        using g(1-3) h' ne by (auto simp add: lastBlock_def)
    qed
  qed
next
  case (free h pre md post p)
  then have ok: "arena_ok h"
    by blast
  obtain bs where hb: "heap_blocks h bs" and sb: "statuses_ok bs"
    using free.IH by blast
  have "bs = pre @ md # post"
    using hb free.hyps(2) unfolding heap_blocks_def by (rule chain_unique)
  then have st: "statuses_ok (pre @ md # post)"
    using sb by simp
  have "arena_ok (mm_free p h)"
    using ok by (simp add: mm_free_def)
  moreover have "heap_blocks (mm_free p h) (pre @ md\<lparr>md_status := META_DATA_STATUS_FREE\<rparr> # post)"
    using free.hyps(2,3) by (rule mm_free_blocks(1))
  moreover have "statuses_ok (pre @ md\<lparr>md_status := META_DATA_STATUS_FREE\<rparr> # post)"
    using st by (simp add: statuses_ok_def)
  ultimately show ?case
    by blast
next
  case (combine h h')
  then obtain bs where ok: "arena_ok h" and hb: "heap_blocks h bs" and st: "statuses_ok bs"
    by blast
  from mm_combine_nearby_free_blocks [OF ok hb] combine.hyps(2) obtain m' where
    "h' = h\<lparr>bytes := m'\<rparr>" "heap_blocks h' (collapse_free_runs bs)"
    by auto
  then show ?case
    using ok statuses_ok_collapse [OF st] by auto
qed

text \<open>
  C2. In every heap the program can reach from the empty arena by successful allocations,
  frees of blocks of the list and coalescing, the walk from \<^verbatim>\<open>heap_start\<close> in steps of
  header size plus block size ends exactly on \<^verbatim>\<open>heap_current_break\<close>: the memory holds a
  block list that starts at \<^verbatim>\<open>heap_start\<close> and ends at the break, \<^verbatim>\<open>mm_print\<close> walks
  exactly this list, the break lies between \<^verbatim>\<open>heap_start\<close> and \<^verbatim>\<open>heap_end\<close>, every
  block lies inside the used part of the arena, and no two blocks share a byte.
\<close>

theorem reachable_contiguous:
  assumes "reachable h"
  shows "walk_end (bytes h) (heap_current_break h) (heap_start h) = Some (heap_current_break h)
    \<and> heap_start h \<le> heap_current_break h \<and> heap_current_break h \<le> heap_end h
    \<and> (\<exists>bs. heap_blocks h bs
          \<and> mm_print h = Some (block_lines 1 bs)
          \<and> block_end (unat (heap_start h)) bs = unat (heap_current_break h)
          \<and> no_overlap (block_addresses (unat (heap_start h)) bs)
          \<and> (\<forall>x\<in>set (block_addresses (unat (heap_start h)) bs).
                block_range x \<subseteq> {unat (heap_start h) ..< unat (heap_current_break h)}))"
proof -
  from reachable_invariant [OF assms] obtain bs where ok: "arena_ok h" and hb: "heap_blocks h bs"
    by blast
  have e: "block_end (unat (heap_start h)) bs = unat (heap_current_break h)"
    using chain_end [OF hb [unfolded heap_blocks_def]] by simp
  have "walk_end (bytes h) (heap_current_break h) (of_nat (unat (heap_start h)))
      = Some (heap_current_break h)"
    using hb unfolding heap_blocks_def by (rule walk_end_chain)
  moreover have "heap_start h \<le> heap_current_break h" "heap_current_break h \<le> heap_end h"
    using ok unfolding arena_ok_def by blast+
  moreover have "mm_print h = Some (block_lines 1 bs)"
    using ok hb by (rule mm_print_heap_blocks)
  moreover have "no_overlap (block_addresses (unat (heap_start h)) bs)"
    by (rule no_overlap_block_addresses)
  moreover have "\<forall>x\<in>set (block_addresses (unat (heap_start h)) bs).
      block_range x \<subseteq> {unat (heap_start h) ..< unat (heap_current_break h)}"
    using block_addresses_within [of _ "unat (heap_start h)" bs] by (simp add: e)
  ultimately show ?thesis
    using hb e by auto
qed

lemma reachable_example: "reachable (mm_free 4294967305 two_allocations)"
proof -
  have "reachable empty_arena"
    using reachable.start [of 4294967296 "\<lambda>_. 0"]
    by (simp add: empty_arena_def NULL_def HEAP_SIZE_def)
  moreover have "malloc_succeeds 10 empty_arena"
    by (simp add: malloc_succeeds_def mm_malloc_loop.simps mm_sbrk_def empty_arena_def NULL_def)
  moreover have "mm_malloc 10 empty_arena = Some (Inr (4294967305, one_block))"
    by (simp add: mm_malloc_def mm_malloc_loop.simps mm_malloc_grow_def mm_sbrk_def
        empty_arena_def one_block_def NULL_def meta_data_size_def MAP_FAILED_def with_header_def
        word_sless_alt)
  ultimately have "reachable one_block"
    by (rule reachable.malloc)
  moreover have "malloc_succeeds 5 one_block"
    by (simp add: malloc_succeeds_def mm_malloc_loop.simps mm_sbrk_def one_block_def NULL_def
        meta_data_size_def with_header_def status_defs read_other)
  moreover have "mm_malloc 5 one_block = Some (Inr (4294967324, two_allocations))"
    by (simp add: mm_malloc_def mm_malloc_loop.simps mm_malloc_grow_def mm_sbrk_def
        two_allocations_def one_block_def NULL_def meta_data_size_def MAP_FAILED_def
        with_header_def word_sless_alt status_defs read_other)
  ultimately have "reachable two_allocations"
    by (rule reachable.malloc)
  moreover have "heap_blocks two_allocations
      ([] @ \<lparr>md_size = 10, md_status = META_DATA_STATUS_OCCUPIED\<rparr>
        # [\<lparr>md_size = 5, md_status = META_DATA_STATUS_OCCUPIED\<rparr>])"
    by (simp add: heap_blocks_def two_allocations_def with_header_def status_defs read_other)
  moreover have "(4294967305 :: addr)
      = of_nat (block_end (unat (heap_start two_allocations)) []) + meta_data_size"
    by (simp add: two_allocations_def meta_data_size_def)
  ultimately have "reachable (mm_free 4294967305 two_allocations)"
    by (rule reachable.free)
  moreover have "mm_combine_nearby_free (mm_free 4294967305 two_allocations)
      = Some (mm_free 4294967305 two_allocations)"
    by (simp add: mm_combine_nearby_free_def combine_outer.simps combine_inner.simps
        mm_free_def mm_sbrk_def two_allocations_def NULL_def meta_data_size_def with_header_def
        status_defs read_other)
  ultimately show ?thesis
    by (rule reachable.combine)
qed

theorem reachable_contiguous_witness:
  "reachable (mm_free 4294967305 two_allocations)
   \<and> walk_end (bytes (mm_free 4294967305 two_allocations)) 4294967329 4294967296
       = Some 4294967329
   \<and> (\<exists>bs. heap_blocks (mm_free 4294967305 two_allocations) bs
         \<and> mm_print (mm_free 4294967305 two_allocations) = Some (block_lines 1 bs)
         \<and> block_end 4294967296 bs = 4294967329
         \<and> no_overlap (block_addresses 4294967296 bs))"
proof -
  have p: "heap_start (mm_free 4294967305 two_allocations) = 4294967296"
    "heap_current_break (mm_free 4294967305 two_allocations) = 4294967329"
    by (simp_all add: two_allocations_def mm_free_def)
  show ?thesis
    using reachable_example reachable_contiguous [OF reachable_example]
    by (simp add: p) blast
qed


end
